theory Spec2Isabelle
  imports Main "HOL-Library.Word"
begin

unbundle bit_operations_syntax

section \<open>fhpack: the LZ4FH codec of \<^verbatim>\<open>fhpack.cpp\<close>\<close>

text \<open>
  Buffers are lists of bytes (\<^verbatim>\<open>uint8_t\<close> is \<open>8 word\<close>); a pointer into a buffer is
  the buffer together with an index. Sizes and positions (\<^verbatim>\<open>size_t\<close>) are natural
  numbers; none of the values the program computes with them comes near \<open>2^32\<close>.
  A store into a \<^verbatim>\<open>uint8_t\<close> is \<open>of_nat\<close> (it keeps the low eight bits).
\<close>

type_synonym byte = "8 word"

abbreviation (input) MAX_SIZE :: nat where "MAX_SIZE \<equiv> 8192"
abbreviation (input) MIN_SIZE :: nat where "MIN_SIZE \<equiv> MAX_SIZE - 8"
abbreviation (input) MAX_EXPANSION :: nat where "MAX_EXPANSION \<equiv> 100"
abbreviation (input) MIN_MATCH_LEN :: nat where "MIN_MATCH_LEN \<equiv> 4"
abbreviation (input) MAX_MATCH_LEN :: nat where "MAX_MATCH_LEN \<equiv> 255"
abbreviation (input) MAX_LITERAL_LEN :: nat where "MAX_LITERAL_LEN \<equiv> 255"
abbreviation (input) INITIAL_LEN :: nat where "INITIAL_LEN \<equiv> 15"
abbreviation (input) EMPTY_MATCH_TOKEN :: byte where "EMPTY_MATCH_TOKEN \<equiv> 253"
abbreviation (input) EOD_MATCH_TOKEN :: byte where "EOD_MATCH_TOKEN \<equiv> 254"
abbreviation (input) LZ4FH_MAGIC :: byte where "LZ4FH_MAGIC \<equiv> 0x66"

subsection \<open>The match finder\<close>

text \<open>
  \<^verbatim>\<open>getMatchLen(str1, str2, count)\<close>: both pointers point into the same buffer, so the
  model takes the buffer and the two indices. The loop
  \<^verbatim>\<open>while (count-- && *str1++ == *str2++) matchLen++;\<close> counts the equal bytes and
  stops at the first mismatch or when \<open>count\<close> is used up; at \<open>count = 0\<close> it reads
  nothing.
\<close>

fun getMatchLen :: "byte list \<Rightarrow> nat \<Rightarrow> nat \<Rightarrow> nat \<Rightarrow> nat" where
  "getMatchLen buf str1 str2 0 = 0"
| "getMatchLen buf str1 str2 (Suc count) =
     (if buf ! str1 = buf ! str2
      then Suc (getMatchLen buf (Suc str1) (Suc str2) count)
      else 0)"

text \<open>
  The \<^verbatim>\<open>for (ii = 0; ii < maxStartOffset; ii++)\<close> loop of \<^verbatim>\<open>findLongestMatch\<close>, with its
  two \<^verbatim>\<open>break\<close>s. \<open>matchPos\<close> is \<^verbatim>\<open>matchPtr - inBuf\<close> (which is also
  \<^verbatim>\<open>maxStartOffset\<close>), \<^verbatim>\<open>inLen\<close> is the length of the list. The callers keep
  \<open>matchPos\<close> inside the buffer, so \<^verbatim>\<open>inLen - (matchPtr - inBuf)\<close> does not wrap.
\<close>

function findLoop :: "byte list \<Rightarrow> nat \<Rightarrow> nat \<Rightarrow> nat \<Rightarrow> nat \<Rightarrow> nat \<times> nat" where
  "findLoop inBuf matchPos ii longest longestOffset =
     (if ii < matchPos then
        (let maxMatchLen0 = length inBuf - matchPos;
             maxMatchLen = (if maxMatchLen0 > MAX_MATCH_LEN then MAX_MATCH_LEN else maxMatchLen0)
         in if maxMatchLen < MIN_MATCH_LEN then (longest, longestOffset)
            else
              (let matchLen = getMatchLen inBuf matchPos ii maxMatchLen;
                   longest' = (if matchLen > longest then matchLen else longest);
                   longestOffset' = (if matchLen > longest then ii else longestOffset)
               in if matchLen = maxMatchLen then (longest', longestOffset')
                  else findLoop inBuf matchPos (ii + 1) longest' longestOffset'))
      else (longest, longestOffset))"
  by pat_completeness auto
termination
  by (relation "measure (\<lambda>(inBuf, matchPos, ii, longest, longestOffset). matchPos - ii)") auto

text \<open>\<^verbatim>\<open>findLongestMatch\<close> returns the pair (\<^verbatim>\<open>longest\<close>, \<^verbatim>\<open>*pMatchOffset\<close>).\<close>

definition findLongestMatch :: "byte list \<Rightarrow> nat \<Rightarrow> nat \<times> nat" where
  "findLongestMatch inBuf matchPos = findLoop inBuf matchPos 0 0 0"

text \<open>
  Vocabulary for the statements: \<open>maxLenAt\<close> is the cap \<open>min(255, N - p)\<close>, and
  \<open>matchAt buf p i n\<close> says that the \<open>n\<close> bytes at \<open>i\<close> equal the \<open>n\<close> bytes at \<open>p\<close>.
\<close>

definition maxLenAt :: "byte list \<Rightarrow> nat \<Rightarrow> nat" where
  "maxLenAt buf p = min MAX_MATCH_LEN (length buf - p)"

definition matchAt :: "byte list \<Rightarrow> nat \<Rightarrow> nat \<Rightarrow> nat \<Rightarrow> bool" where
  "matchAt buf p i n = (\<forall>k<n. buf ! (i + k) = buf ! (p + k))"

declare findLoop.simps [simp del]

lemma getMatchLen_le: "getMatchLen buf s1 s2 m \<le> m"
  by (induction buf s1 s2 m rule: getMatchLen.induct) auto

lemma getMatchLen_match:
  "k < getMatchLen buf s1 s2 m \<Longrightarrow> buf ! (s1 + k) = buf ! (s2 + k)"
proof (induction buf s1 s2 m arbitrary: k rule: getMatchLen.induct)
  case (1 buf str1 str2)
  then show ?case by simp
next
  case (2 buf str1 str2 count)
  show ?case
  proof (cases "buf ! str1 = buf ! str2")
    case True
    show ?thesis
    proof (cases k)
      case 0
      with True show ?thesis by simp
    next
      case (Suc k')
      with True "2.prems" have "k' < getMatchLen buf (Suc str1) (Suc str2) count" by simp
      from "2.IH" [OF True this] Suc show ?thesis by simp
    qed
  next
    case False
    with "2.prems" show ?thesis by simp
  qed
qed

lemma getMatchLen_maximal:
  "n \<le> m \<Longrightarrow> (\<forall>k<n. buf ! (s1 + k) = buf ! (s2 + k)) \<Longrightarrow> n \<le> getMatchLen buf s1 s2 m"
proof (induction buf s1 s2 m arbitrary: n rule: getMatchLen.induct)
  case (1 buf str1 str2)
  then show ?case by simp
next
  case (2 buf str1 str2 count)
  show ?case
  proof (cases n)
    case 0
    then show ?thesis by simp
  next
    case (Suc n')
    with "2.prems" have eq0: "buf ! str1 = buf ! str2" by force
    have "\<forall>k<n'. buf ! (Suc str1 + k) = buf ! (Suc str2 + k)"
    proof (intro allI impI)
      fix k assume "k < n'"
      then have "Suc k < n" using Suc by simp
      with "2.prems"(2) have "buf ! (str1 + Suc k) = buf ! (str2 + Suc k)" by blast
      then show "buf ! (Suc str1 + k) = buf ! (Suc str2 + k)" by simp
    qed
    moreover have "n' \<le> count" using Suc "2.prems"(1) by simp
    ultimately have "n' \<le> getMatchLen buf (Suc str1) (Suc str2) count"
      using "2.IH" [OF eq0] by blast
    with eq0 Suc show ?thesis by simp
  qed
qed

lemma matchAt_getMatchLen: "matchAt buf p i (getMatchLen buf p i m)"
  unfolding matchAt_def using getMatchLen_match [of _ buf p i m] by auto

lemma matchAt_le_getMatchLen: "n \<le> m \<Longrightarrow> matchAt buf p i n \<Longrightarrow> n \<le> getMatchLen buf p i m"
  unfolding matchAt_def using getMatchLen_maximal [of n m buf p i] by auto

lemma findLoop_unfold:
  "findLoop buf p ii longest off =
     (if ii < p \<and> 4 \<le> maxLenAt buf p then
        (if getMatchLen buf p ii (maxLenAt buf p) = maxLenAt buf p
         then (max longest (maxLenAt buf p),
               if longest < maxLenAt buf p then ii else off)
         else findLoop buf p (Suc ii)
                (max longest (getMatchLen buf p ii (maxLenAt buf p)))
                (if longest < getMatchLen buf p ii (maxLenAt buf p) then ii else off))
      else (longest, off))"
  by (subst findLoop.simps) (auto simp: maxLenAt_def min_def Let_def max_def)

lemma findLoop_mono:
  "findLoop buf p ii longest off = (len, off') \<Longrightarrow> longest \<le> len"
proof (induction "p - ii" arbitrary: ii longest off)
  case 0
  then show ?case by (simp add: findLoop_unfold [of buf p ii])
next
  case (Suc n)
  show ?case
  proof (cases "4 \<le> maxLenAt buf p \<and> getMatchLen buf p ii (maxLenAt buf p) \<noteq> maxLenAt buf p")
    case True
    have lt: "ii < p" using Suc.hyps(2) by simp
    with True Suc.prems
    have run: "findLoop buf p (Suc ii) (max longest (getMatchLen buf p ii (maxLenAt buf p)))
                (if longest < getMatchLen buf p ii (maxLenAt buf p) then ii else off) = (len, off')"
      by (simp add: findLoop_unfold [of buf p ii])
    have "n = p - Suc ii" using Suc.hyps(2) by simp
    from Suc.hyps(1) [OF this run] show ?thesis by simp
  next
    case False
    with Suc.prems show ?thesis
      by (auto simp: findLoop_unfold [of buf p ii] split: if_splits)
  qed
qed

lemma findLoop_spec:
  assumes "findLoop buf p ii longest off = (len, off')"
    and "ii \<le> p"
    and "\<forall>i<ii. getMatchLen buf p i (maxLenAt buf p) \<le> longest
               \<and> getMatchLen buf p i (maxLenAt buf p) < maxLenAt buf p"
    and "0 < longest \<longrightarrow> off < ii \<and> getMatchLen buf p off (maxLenAt buf p) = longest
               \<and> (\<forall>i<off. getMatchLen buf p i (maxLenAt buf p) < longest)"
    and "4 \<le> maxLenAt buf p"
  shows "(\<forall>i<p. getMatchLen buf p i (maxLenAt buf p) \<le> len)
       \<and> (0 < len \<longrightarrow> off' < p \<and> getMatchLen buf p off' (maxLenAt buf p) = len
               \<and> (\<forall>i<off'. getMatchLen buf p i (maxLenAt buf p) < len))
       \<and> (len = 0 \<longrightarrow> off' = off)"
  using assms
proof (induction "p - ii" arbitrary: ii longest off)
  case 0
  then have "ii = p" by simp
  with "0.prems"(1) have "len = longest" "off' = off"
    by (simp_all add: findLoop_unfold [of buf p p])
  with "0.prems" \<open>ii = p\<close> show ?case by auto
next
  case (Suc n)
  let ?m = "maxLenAt buf p"
  let ?g = "\<lambda>i. getMatchLen buf p i ?m"
  from Suc.hyps(2) have lt: "ii < p" by simp
  define l1 where "l1 = max longest (?g ii)"
  define o1 where "o1 = (if longest < ?g ii then ii else off)"
  have gle: "?g ii \<le> ?m" by (rule getMatchLen_le)
  have inv1: "\<forall>i<Suc ii. ?g i \<le> l1"
    using Suc.prems(3) by (auto simp: l1_def less_Suc_eq max_def)
  have inv2: "0 < l1 \<longrightarrow> o1 < Suc ii \<and> ?g o1 = l1 \<and> (\<forall>i<o1. ?g i < l1)"
    using Suc.prems(3,4) by (auto simp: l1_def o1_def max_def)
  have l0: "l1 = 0 \<longrightarrow> o1 = off"
    by (auto simp: l1_def o1_def max_def)
  show ?case
  proof (cases "?g ii = ?m")
    case True
    have "findLoop buf p ii longest off = (max longest ?m, if longest < ?m then ii else off)"
      using lt True Suc.prems(5) by (subst findLoop_unfold) simp
    with Suc.prems(1) True have eqs: "len = l1" "off' = o1"
      by (simp_all add: l1_def o1_def)
    have big: "l1 = ?m" using True gle Suc.prems(3,4) getMatchLen_le [of buf p off ?m]
      by (auto simp: l1_def max_def)
    have "\<forall>i<p. ?g i \<le> len" using eqs big getMatchLen_le by simp
    moreover have "o1 < p" if "0 < l1" using inv2 that lt by auto
    ultimately show ?thesis using eqs inv2 l0 by auto
  next
    case False
    have "findLoop buf p ii longest off = findLoop buf p (Suc ii) l1 o1"
      using lt False Suc.prems(5) by (subst findLoop_unfold) (simp add: l1_def o1_def)
    with Suc.prems(1) have run: "findLoop buf p (Suc ii) l1 o1 = (len, off')" by simp
    have inv1': "\<forall>i<Suc ii. ?g i \<le> l1 \<and> ?g i < ?m"
      using inv1 Suc.prems(3) False gle by (auto simp: less_Suc_eq)
    have n: "n = p - Suc ii" using Suc.hyps(2) by simp
    have "Suc ii \<le> p" using lt by simp
    from Suc.hyps(1) [OF n run this inv1' inv2 Suc.prems(5)]
    have IH: "(\<forall>i<p. ?g i \<le> len)
       \<and> (0 < len \<longrightarrow> off' < p \<and> ?g off' = len \<and> (\<forall>i<off'. ?g i < len))
       \<and> (len = 0 \<longrightarrow> off' = o1)" .
    have "l1 = 0" if "len = 0" using findLoop_mono [OF run] that by simp
    with IH l0 show ?thesis by auto
  qed
qed

lemma findLongestMatch_spec:
  assumes "findLongestMatch buf p = (len, off)"
  shows "len \<le> maxLenAt buf p"
    and "\<forall>i<p. getMatchLen buf p i (maxLenAt buf p) \<le> len \<or> maxLenAt buf p < 4"
    and "0 < len \<Longrightarrow> off < p \<and> getMatchLen buf p off (maxLenAt buf p) = len
               \<and> (\<forall>i<off. getMatchLen buf p i (maxLenAt buf p) < len)"
    and "len = 0 \<Longrightarrow> off = 0"
proof -
  show "len = 0 \<Longrightarrow> off = 0"
  proof (cases "4 \<le> maxLenAt buf p")
    case True
    assume "len = 0"
    with findLoop_spec [of buf p 0 0 0 len off] assms True show ?thesis
      by (simp add: findLongestMatch_def)
  next
    case False
    with assms show ?thesis by (simp add: findLongestMatch_def findLoop_unfold [of buf p 0])
  qed
  show "\<forall>i<p. getMatchLen buf p i (maxLenAt buf p) \<le> len \<or> maxLenAt buf p < 4"
    using findLoop_spec [of buf p 0 0 0 len off] assms
    by (cases "4 \<le> maxLenAt buf p") (simp_all add: findLongestMatch_def)
  show pos: "off < p \<and> getMatchLen buf p off (maxLenAt buf p) = len
               \<and> (\<forall>i<off. getMatchLen buf p i (maxLenAt buf p) < len)" if "0 < len"
  proof (cases "4 \<le> maxLenAt buf p")
    case True
    with findLoop_spec [of buf p 0 0 0 len off] assms that show ?thesis
      by (simp add: findLongestMatch_def)
  next
    case False
    with assms that show ?thesis by (simp add: findLongestMatch_def findLoop_unfold [of buf p 0])
  qed
  show "len \<le> maxLenAt buf p"
  proof (cases "0 < len")
    case True
    from pos [OF True] getMatchLen_le [of buf p off "maxLenAt buf p"] show ?thesis by simp
  next
    case False
    then show ?thesis by simp
  qed
qed

text \<open>
  C3. For a buffer of length \<open>N\<close> and a position \<open>p\<close> in it, \<open>findLongestMatch\<close> returns
  a length of at most \<open>min(255, N - p)\<close>. When the returned length is at least 4 (a match
  is reported), the offset is below \<open>p\<close>, the bytes at the offset equal the bytes at \<open>p\<close>
  over that length, no candidate start below \<open>p\<close> matches over a greater length within
  the cap, and no smaller offset matches over the same length (the first candidate
  wins a tie). When the returned length is below 4 (no match is reported), no candidate
  start below \<open>p\<close> matches over 4 bytes or more within the cap.
\<close>

theorem findLongestMatch_longest:
  assumes "p \<le> length buf" and "findLongestMatch buf p = (len, off)"
  shows "len \<le> min 255 (length buf - p)
       \<and> (4 \<le> len \<longrightarrow>
            off < p \<and> matchAt buf p off len
          \<and> (\<forall>i<p. \<forall>n\<le>min 255 (length buf - p). matchAt buf p i n \<longrightarrow> n \<le> len)
          \<and> (\<forall>i<off. \<not> matchAt buf p i len))
       \<and> (len < 4 \<longrightarrow>
            (\<forall>i<p. \<forall>n\<le>min 255 (length buf - p). 4 \<le> n \<longrightarrow> \<not> matchAt buf p i n))"
proof -
  let ?m = "maxLenAt buf p"
  note spec = findLongestMatch_spec [OF assms(2)]
  have m: "?m = min 255 (length buf - p)" by (simp add: maxLenAt_def)
  have le: "len \<le> ?m" by (rule spec(1))
  have upper: "n \<le> len" if "i < p" "n \<le> ?m" "matchAt buf p i n" "4 \<le> ?m" for i n
  proof -
    from that have "n \<le> getMatchLen buf p i ?m" by (simp add: matchAt_le_getMatchLen)
    moreover from spec(2) that have "getMatchLen buf p i ?m \<le> len" by auto
    ultimately show ?thesis by simp
  qed
  have big: "off < p \<and> matchAt buf p off len
          \<and> (\<forall>i<p. \<forall>n\<le>?m. matchAt buf p i n \<longrightarrow> n \<le> len)
          \<and> (\<forall>i<off. \<not> matchAt buf p i len)" if "4 \<le> len"
  proof -
    from that have pos: "0 < len" by simp
    from that le have m4: "4 \<le> ?m" by simp
    from spec(3) [OF pos] have off: "off < p" and g: "getMatchLen buf p off ?m = len"
      and first: "\<forall>i<off. getMatchLen buf p i ?m < len" by simp_all
    have "matchAt buf p off len" using matchAt_getMatchLen [of buf p off ?m] g by simp
    moreover have "\<not> matchAt buf p i len" if "i < off" for i
    proof
      assume "matchAt buf p i len"
      with le have "len \<le> getMatchLen buf p i ?m" by (simp add: matchAt_le_getMatchLen)
      with first that show False by auto
    qed
    ultimately show ?thesis using off upper m4 by blast
  qed
  have small: "\<not> matchAt buf p i n" if "len < 4" "i < p" "n \<le> ?m" "4 \<le> n" for i n
  proof
    assume "matchAt buf p i n"
    moreover from that have "4 \<le> ?m" by simp
    ultimately have "n \<le> len" using upper that by blast
    with that show False by simp
  qed
  from le big small show ?thesis unfolding m by blast
qed

theorem findLongestMatch_longest_witness:
  "findLongestMatch [1, 2, 3, 4, 5, 1, 2, 3, 4, 5, 6] 5 = (5, 0)
   \<and> 5 \<le> min 255 (length [1, 2, 3, 4, 5, 1, 2, 3, 4, 5, 6 :: byte] - 5)
   \<and> matchAt [1, 2, 3, 4, 5, 1, 2, 3, 4, 5, 6] 5 0 5"
proof -
  have run: "findLongestMatch [1, 2, 3, 4, 5, 1, 2, 3, 4, 5, 6] 5 = (5, 0)"
    by (simp add: findLongestMatch_def findLoop_unfold maxLenAt_def)
  have "(5::nat) \<le> length [1, 2, 3, 4, 5, 1, 2, 3, 4, 5, 6 :: byte]" by simp
  from findLongestMatch_longest [OF this run] run show ?thesis by simp
qed

subsection \<open>Chunk serialisation\<close>

text \<open>
  Both encoders emit a chunk with the same statements. The model names the two blocks
  once. \<open>emitMatch\<close> is the block ``found a match, output previous literals first''
  (lines 470--503 in \<^verbatim>\<open>compressBufferOptimally\<close>, lines 597--630 in
  \<^verbatim>\<open>compressBufferGreedily\<close>); its value is the bytes stored through \<^verbatim>\<open>outPtr\<close>.
  \<^verbatim>\<open>memcpy(outPtr, literalSrcPtr, numLiterals)\<close> is \<open>take numLiterals (drop literalSrc inBuf)\<close>;
  \<^verbatim>\<open>literalSrcPtr\<close> is \<^verbatim>\<open>NULL\<close> (here index 0) only while \<^verbatim>\<open>numLiterals\<close> is 0.
\<close>

definition mixedLengthsOf :: "nat \<Rightarrow> nat \<Rightarrow> byte" where
  "mixedLengthsOf adjustedMatch numLiterals =
     (let mixedLengths = (if adjustedMatch \<le> INITIAL_LEN then of_nat adjustedMatch
                          else of_nat INITIAL_LEN) :: byte
      in if numLiterals \<le> INITIAL_LEN then mixedLengths OR of_nat (push_bit 4 numLiterals)
         else mixedLengths OR of_nat (push_bit 4 INITIAL_LEN))"

definition emitMatch :: "byte list \<Rightarrow> nat \<Rightarrow> nat \<Rightarrow> nat \<Rightarrow> nat \<Rightarrow> byte list" where
  "emitMatch inBuf literalSrc numLiterals longestMatch matchOff =
     (let adjustedMatch = longestMatch - MIN_MATCH_LEN in
      [mixedLengthsOf adjustedMatch numLiterals]
      @ (if numLiterals \<ge> INITIAL_LEN then [of_nat (numLiterals - INITIAL_LEN)] else [])
      @ take numLiterals (drop literalSrc inBuf)
      @ (if adjustedMatch \<ge> INITIAL_LEN then [of_nat (adjustedMatch - INITIAL_LEN)] else [])
      @ [of_nat (matchOff AND 0xff), of_nat (drop_bit 8 matchOff AND 0xff)])"

text \<open>
  \<open>emitLiterals\<close> is the block that writes a run of literals followed by a token in
  place of the match length: the ``literal-literal'' case of the optimal encoder
  (lines 449--459, token 253) and the final chunk of both encoders (lines 518--529 and
  638--649, token 254).
\<close>

definition emitLiterals :: "byte list \<Rightarrow> nat \<Rightarrow> nat \<Rightarrow> byte \<Rightarrow> byte list" where
  "emitLiterals inBuf literalSrc numLiterals token =
     (if numLiterals < INITIAL_LEN then [of_nat (push_bit 4 numLiterals OR 0x0f)]
      else [0xff, of_nat (numLiterals - INITIAL_LEN)])
     @ take numLiterals (drop literalSrc inBuf)
     @ [token]"

subsection \<open>Errors\<close>

text \<open>
  \<open>AssertionFailed\<close> is a failing \<^verbatim>\<open>assert\<close>. \<open>MissingMagic\<close>, \<open>BufferOverrunL\<close> and
  \<open>BufferOverrunM\<close> are the three \<^verbatim>\<open>return 0\<close> of \<^verbatim>\<open>uncompressBuffer\<close>.
  \<open>ReadOutsideInput\<close> and \<open>WriteOutsideOutput\<close> stand for an access outside the array a
  pointer points into, which the C program does not check and which is undefined there.
\<close>

datatype error = AssertionFailed | MissingMagic | BufferOverrunL | BufferOverrunM
  | ReadOutsideInput | WriteOutsideOutput

subsection \<open>The greedy encoder\<close>

text \<open>
  The \<^verbatim>\<open>while (inPtr < inBuf + inLen)\<close> loop of \<^verbatim>\<open>compressBufferGreedily\<close>. The state is
  \<^verbatim>\<open>inPtr\<close>, \<^verbatim>\<open>literalSrcPtr\<close>, \<^verbatim>\<open>numLiterals\<close> and the bytes written to \<^verbatim>\<open>outBuf\<close> so far
  (\<^verbatim>\<open>outPtr - outBuf\<close> is their number).
\<close>

function greedyLoop ::
  "byte list \<Rightarrow> nat \<Rightarrow> nat \<Rightarrow> nat \<Rightarrow> byte list \<Rightarrow> error + (nat \<times> nat \<times> byte list)" where
  "greedyLoop inBuf inPos literalSrc numLiterals out =
     (if inPos < length inBuf then
        (if \<not> length out < MAX_SIZE + MAX_EXPANSION then Inl AssertionFailed
         else
           (case findLongestMatch inBuf inPos of (longestMatch, matchOff) \<Rightarrow>
              if longestMatch < MIN_MATCH_LEN then
                (let out1 = (if numLiterals = MAX_LITERAL_LEN
                             then out @ [0xff, of_nat (MAX_LITERAL_LEN - INITIAL_LEN)]
                                      @ take numLiterals (drop literalSrc inBuf)
                                      @ [EMPTY_MATCH_TOKEN]
                             else out);
                     numLiterals1 = (if numLiterals = MAX_LITERAL_LEN then 0 else numLiterals);
                     literalSrc1 = (if numLiterals1 = 0 then inPos else literalSrc)
                 in greedyLoop inBuf (inPos + 1) literalSrc1 (numLiterals1 + 1) out1)
              else
                greedyLoop inBuf (inPos + longestMatch) 0 0
                  (out @ emitMatch inBuf literalSrc numLiterals longestMatch matchOff)))
      else Inr (literalSrc, numLiterals, out))"
  by pat_completeness auto
termination
  by (relation "measure (\<lambda>(inBuf, inPos, literalSrc, numLiterals, out). length inBuf - inPos)")
    auto

text \<open>
  \<^verbatim>\<open>compressBufferGreedily(outBuf, inBuf, inLen)\<close>: the result is the bytes written to
  \<^verbatim>\<open>outBuf\<close>; the C function returns their number.
\<close>

definition compressBufferGreedily :: "byte list \<Rightarrow> error + byte list" where
  "compressBufferGreedily inBuf =
     (case greedyLoop inBuf 0 0 0 [LZ4FH_MAGIC] of
        Inl e \<Rightarrow> Inl e
      | Inr (literalSrc, numLiterals, out) \<Rightarrow>
          Inr (out @ emitLiterals inBuf literalSrc numLiterals EOD_MATCH_TOKEN))"

subsection \<open>The optimal encoder\<close>

record OptNode =
  totalCost :: nat
  matchLength :: nat
  matchOffset :: nat
  literalLength :: nat

abbreviation zeroNode :: OptNode where
  "zeroNode \<equiv> \<lparr>totalCost = 0, matchLength = 0, matchOffset = 0, literalLength = 0\<rparr>"

text \<open>
  One iteration of pass 1 (the body of \<^verbatim>\<open>for (unsigned int i = inLen - 1; i < inLen; i--)\<close>),
  on the array \<^verbatim>\<open>optList\<close>. The fields of \<^verbatim>\<open>optList[i]\<close> are assigned in the order of the
  source: \<open>node1\<close> after the match path, \<open>node2\<close> after the literal path.
\<close>

definition optStep :: "byte list \<Rightarrow> nat \<Rightarrow> OptNode list \<Rightarrow> error + OptNode list" where
  "optStep inBuf i optList =
     (case findLongestMatch inBuf i of (longestMatch, matchOff) \<Rightarrow>
        let inLen = length inBuf;
            node0 = optList ! i;
            node1 = (if longestMatch < MIN_MATCH_LEN then node0
                     else node0\<lparr>matchLength := longestMatch, matchOffset := matchOff\<rparr>);
            costForMatch =
              (if longestMatch < MIN_MATCH_LEN then MAX_SIZE * 2
               else totalCost (optList ! (i + longestMatch)) + 3
                    + (if longestMatch \<ge> INITIAL_LEN then 1 else 0));
            node2 =
              (if i = inLen - 1 then node1\<lparr>literalLength := 1, totalCost := 2\<rparr>
               else if matchLength (optList ! (i + 1)) \<noteq> 0 then node1\<lparr>literalLength := 1\<rparr>
               else if literalLength (optList ! (i + 1)) = MAX_LITERAL_LEN
                    then node1\<lparr>literalLength := 1\<rparr>
               else node1\<lparr>literalLength := literalLength (optList ! (i + 1)) + 1\<rparr>);
            costForLiteral =
              (if i = inLen - 1 then 2
               else (if matchLength (optList ! (i + 1)) \<noteq> 0 then 1
                     else if literalLength (optList ! (i + 1)) = MAX_LITERAL_LEN then 3
                     else if literalLength (optList ! (i + 1)) + 1 = INITIAL_LEN then 2
                     else 1)
                    + totalCost (optList ! (i + 1)))
        in if costForLiteral > costForMatch then
             (if longestMatch = 0 then Inl AssertionFailed
              else Inr (optList[i := node2\<lparr>totalCost := costForMatch\<rparr>]))
           else Inr (optList[i := node2\<lparr>matchLength := 0, totalCost := costForLiteral\<rparr>]))"

text \<open>
  Pass 1 runs the body for \<open>i = inLen - 1\<close> down to \<open>0\<close> (the unsigned counter wraps
  below 0 and ends the loop). The second argument counts the iterations left; the body
  runs at index one less.
\<close>

fun optPass1 :: "byte list \<Rightarrow> nat \<Rightarrow> OptNode list \<Rightarrow> error + OptNode list" where
  "optPass1 inBuf 0 optList = Inr optList"
| "optPass1 inBuf (Suc i) optList =
     (case optStep inBuf i optList of
        Inl e \<Rightarrow> Inl e
      | Inr optList' \<Rightarrow> optPass1 inBuf i optList')"

text \<open>
  Pass 2, the loop \<^verbatim>\<open>for (unsigned int i = 0; i < inLen; )\<close>. It advances by
  \<^verbatim>\<open>optList[i].literalLength\<close> or \<^verbatim>\<open>optList[i].matchLength\<close>; on a table where such a
  value is 0 the C loop does not end, so the model is a partial function and \<open>None\<close>
  is ``does not return''.
\<close>

partial_function (option) optEmit ::
  "byte list \<Rightarrow> OptNode list \<Rightarrow> nat \<Rightarrow> nat \<Rightarrow> nat \<Rightarrow> byte list \<Rightarrow> (nat \<times> nat \<times> byte list) option"
  where
  "optEmit inBuf optList i literalSrc numLiterals out =
     (if i < length inBuf then
        (if matchLength (optList ! i) = 0 then
           optEmit inBuf optList (i + literalLength (optList ! i)) i (literalLength (optList ! i))
             (if numLiterals \<noteq> 0
              then out @ emitLiterals inBuf literalSrc numLiterals EMPTY_MATCH_TOKEN
              else out)
         else
           optEmit inBuf optList (i + matchLength (optList ! i)) 0 0
             (out @ emitMatch inBuf literalSrc numLiterals
                      (matchLength (optList ! i)) (matchOffset (optList ! i))))
      else Some (literalSrc, numLiterals, out))"

declare optEmit.simps [code]

text \<open>
  \<^verbatim>\<open>compressBufferOptimally(outBuf, inBuf, inLen)\<close>. \<^verbatim>\<open>calloc\<close> gives \<open>inLen + 1\<close> zero nodes.
\<close>

definition compressBufferOptimally :: "byte list \<Rightarrow> (error + byte list) option" where
  "compressBufferOptimally inBuf =
     (case optPass1 inBuf (length inBuf) (replicate (length inBuf + 1) zeroNode) of
        Inl e \<Rightarrow> Some (Inl e)
      | Inr optList \<Rightarrow>
          (case optEmit inBuf optList 0 0 0 [LZ4FH_MAGIC] of
             None \<Rightarrow> None
           | Some (literalSrc, numLiterals, out) \<Rightarrow>
               Some (Inr (out @ emitLiterals inBuf literalSrc numLiterals EOD_MATCH_TOKEN))))"

subsection \<open>The decoder\<close>

text \<open>
  \<^verbatim>\<open>uncompressBuffer(outBuf, inBuf, inLen)\<close>. \<open>inBuf\<close> is the whole array the pointer
  points into and \<open>inLen\<close> the number of bytes the caller says are data: the callers
  pass arrays of \<open>MAX_SIZE + MAX_EXPANSION\<close> bytes of which the first \<open>inLen\<close> were
  filled. \<open>outBuf\<close> is the output array with the content it has at the call.
  A read at an index outside \<open>inBuf\<close>, and a copy outside \<open>outBuf\<close>, is an error of the
  model; a read at an index from \<open>inLen\<close> on, inside the array, returns the byte there.
\<close>

definition readByte :: "byte list \<Rightarrow> nat \<Rightarrow> byte option" where
  "readByte buf pos = (if pos < length buf then Some (buf ! pos) else None)"

text \<open>
  Lines 675--693: the literal length and the copy of the literals. The result is the
  new \<^verbatim>\<open>inPtr\<close>, \<^verbatim>\<open>outPtr\<close> and output array.
\<close>

definition literalPhase ::
  "byte list \<Rightarrow> nat \<Rightarrow> byte \<Rightarrow> nat \<Rightarrow> nat \<Rightarrow> byte list \<Rightarrow> error + (nat \<times> nat \<times> byte list)" where
  "literalPhase inBuf inLen mixedLen inPos outPos outBuf =
     (let literalLen0 = unat (drop_bit 4 mixedLen) in
      if literalLen0 \<noteq> 0 then
        (case (if literalLen0 = INITIAL_LEN
               then map_option (\<lambda>b. (literalLen0 + unat b, inPos + 1)) (readByte inBuf inPos)
               else Some (literalLen0, inPos)) of
           None \<Rightarrow> Inl ReadOutsideInput
         | Some (literalLen, inPos1) \<Rightarrow>
             if outPos + literalLen > MAX_SIZE \<or> inPos1 + literalLen > inLen
             then Inl BufferOverrunL
             else if inPos1 + literalLen > length inBuf then Inl ReadOutsideInput
             else if outPos + literalLen > length outBuf then Inl WriteOutsideOutput
             else Inr (inPos1 + literalLen, outPos + literalLen,
                       take outPos outBuf @ take literalLen (drop inPos1 inBuf)
                         @ drop (outPos + literalLen) outBuf))
      else Inr (inPos, outPos, outBuf))"

text \<open>
  Lines 695--707: the match length. \<open>MatchLen n p\<close> is the value of the \<^verbatim>\<open>int matchLen\<close>
  after line 707 (\<open>-4\<close> for the empty-match token) with the new \<^verbatim>\<open>inPtr\<close>; \<open>EndOfData\<close> is
  the \<^verbatim>\<open>break\<close>.
\<close>

datatype matchHeader = HeaderFault | EndOfData nat | MatchLen int nat

definition matchLenPhase :: "byte list \<Rightarrow> byte \<Rightarrow> nat \<Rightarrow> matchHeader" where
  "matchLenPhase inBuf mixedLen inPos =
     (let matchLen = int (unat (mixedLen AND 0x0f)) in
      if matchLen = int INITIAL_LEN then
        (case readByte inBuf inPos of
           None \<Rightarrow> HeaderFault
         | Some addon \<Rightarrow>
             if addon = EMPTY_MATCH_TOKEN then MatchLen (- int MIN_MATCH_LEN) (inPos + 1)
             else if addon = EOD_MATCH_TOKEN then EndOfData (inPos + 1)
             else MatchLen (matchLen + int (unat addon)) (inPos + 1))
      else MatchLen matchLen inPos)"

text \<open>The loop \<^verbatim>\<open>while (matchLen-- != 0) *outPtr++ = *srcPtr++;\<close>, one byte at a time.\<close>

fun copyMatch :: "byte list \<Rightarrow> nat \<Rightarrow> nat \<Rightarrow> nat \<Rightarrow> byte list option" where
  "copyMatch outBuf outPos srcPos 0 = Some outBuf"
| "copyMatch outBuf outPos srcPos (Suc matchLen) =
     (if srcPos < length outBuf \<and> outPos < length outBuf
      then copyMatch (outBuf[outPos := outBuf ! srcPos]) (Suc outPos) (Suc srcPos) matchLen
      else None)"

text \<open>
  Lines 709--727, from \<^verbatim>\<open>matchLen += MIN_MATCH_LEN\<close> on: the offset, the bounds check and
  the copy. The result of a chunk is a failure or the state for the next chunk.
\<close>

datatype chunkResult = Failed error | Finished nat nat "byte list" | NextChunk nat nat "byte list"

definition copyPhase :: "byte list \<Rightarrow> int \<Rightarrow> nat \<Rightarrow> nat \<Rightarrow> byte list \<Rightarrow> chunkResult" where
  "copyPhase inBuf matchLen0 inPos outPos outBuf =
     (let matchLen = matchLen0 + int MIN_MATCH_LEN in
      if matchLen \<noteq> 0 then
        (case readByte inBuf inPos of
           None \<Rightarrow> Failed ReadOutsideInput
         | Some b0 \<Rightarrow>
             (case readByte inBuf (inPos + 1) of
                None \<Rightarrow> Failed ReadOutsideInput
              | Some b1 \<Rightarrow>
                  let matchOff = unat b0 OR push_bit 8 (unat b1) in
                  if int outPos + matchLen > int MAX_SIZE \<or> int matchOff + matchLen > int MAX_SIZE
                  then Failed BufferOverrunM
                  else (case copyMatch outBuf outPos matchOff (nat matchLen) of
                          None \<Rightarrow> Failed WriteOutsideOutput
                        | Some outBuf' \<Rightarrow>
                            NextChunk (inPos + 2) (outPos + nat matchLen) outBuf')))
      else NextChunk inPos outPos outBuf)"

text \<open>One iteration of \<^verbatim>\<open>while (true)\<close>.\<close>

definition decodeChunk :: "byte list \<Rightarrow> nat \<Rightarrow> nat \<Rightarrow> nat \<Rightarrow> byte list \<Rightarrow> chunkResult" where
  "decodeChunk inBuf inLen inPos outPos outBuf =
     (case readByte inBuf inPos of
        None \<Rightarrow> Failed ReadOutsideInput
      | Some mixedLen \<Rightarrow>
          (case literalPhase inBuf inLen mixedLen (inPos + 1) outPos outBuf of
             Inl e \<Rightarrow> Failed e
           | Inr (inPos1, outPos1, outBuf1) \<Rightarrow>
               (case matchLenPhase inBuf mixedLen inPos1 of
                  HeaderFault \<Rightarrow> Failed ReadOutsideInput
                | EndOfData inPos2 \<Rightarrow> Finished inPos2 outPos1 outBuf1
                | MatchLen matchLen inPos2 \<Rightarrow> copyPhase inBuf matchLen inPos2 outPos1 outBuf1)))"

lemma readByte_Some: "readByte buf pos = Some b \<Longrightarrow> pos < length buf"
  by (simp add: readByte_def split: if_splits)

lemma literalPhase_inPos:
  "literalPhase inBuf inLen mixedLen inPos outPos outBuf = Inr (inPos1, outPos1, outBuf1)
   \<Longrightarrow> inPos \<le> length inBuf \<Longrightarrow> inPos \<le> inPos1 \<and> inPos1 \<le> length inBuf"
  by (auto simp: literalPhase_def Let_def split: if_splits option.splits dest: readByte_Some)

lemma matchLenPhase_inPos:
  "matchLenPhase inBuf mixedLen inPos = MatchLen n inPos2 \<Longrightarrow> inPos \<le> length inBuf
   \<Longrightarrow> inPos \<le> inPos2 \<and> inPos2 \<le> length inBuf"
  by (auto simp: matchLenPhase_def Let_def split: if_splits option.splits dest: readByte_Some)

lemma copyPhase_inPos:
  "copyPhase inBuf matchLen inPos outPos outBuf = NextChunk inPos3 outPos3 outBuf3
   \<Longrightarrow> inPos \<le> length inBuf \<Longrightarrow> inPos \<le> inPos3 \<and> inPos3 \<le> length inBuf"
  by (auto simp: copyPhase_def Let_def split: if_splits option.splits dest: readByte_Some)

lemma decodeChunk_progress:
  assumes "decodeChunk inBuf inLen inPos outPos outBuf = NextChunk inPos' outPos' outBuf'"
  shows "inPos < inPos' \<and> inPos' \<le> length inBuf"
proof -
  from assms obtain mixedLen where rb: "readByte inBuf inPos = Some mixedLen"
    by (auto simp: decodeChunk_def split: option.splits)
  then have lt: "inPos + 1 \<le> length inBuf" using readByte_Some by fastforce
  from assms rb obtain inPos1 outPos1 outBuf1 where
    lp: "literalPhase inBuf inLen mixedLen (inPos + 1) outPos outBuf = Inr (inPos1, outPos1, outBuf1)"
    by (auto simp: decodeChunk_def split: sum.splits)
  from literalPhase_inPos [OF lp lt] have p1: "inPos + 1 \<le> inPos1" "inPos1 \<le> length inBuf"
    by simp_all
  from assms rb lp obtain matchLen inPos2 where
    mp: "matchLenPhase inBuf mixedLen inPos1 = MatchLen matchLen inPos2"
    and cp: "copyPhase inBuf matchLen inPos2 outPos1 outBuf1 = NextChunk inPos' outPos' outBuf'"
    by (auto simp: decodeChunk_def split: matchHeader.splits)
  from matchLenPhase_inPos [OF mp p1(2)]
  have p2: "inPos1 \<le> inPos2" "inPos2 \<le> length inBuf" by simp_all
  from copyPhase_inPos [OF cp p2(2)] p1 p2 show ?thesis by simp
qed

text \<open>
  The \<^verbatim>\<open>while (true)\<close> loop. Every chunk reads at least its mixed-length byte inside the
  array, so the loop ends.
\<close>

function uncompressLoop ::
  "byte list \<Rightarrow> nat \<Rightarrow> nat \<Rightarrow> nat \<Rightarrow> byte list \<Rightarrow> error + (nat \<times> nat \<times> byte list)" where
  "uncompressLoop inBuf inLen inPos outPos outBuf =
     (case decodeChunk inBuf inLen inPos outPos outBuf of
        Failed e \<Rightarrow> Inl e
      | Finished inPos' outPos' outBuf' \<Rightarrow> Inr (inPos', outPos', outBuf')
      | NextChunk inPos' outPos' outBuf' \<Rightarrow> uncompressLoop inBuf inLen inPos' outPos' outBuf')"
  by pat_completeness auto
termination
  by (relation "measure (\<lambda>(inBuf, inLen, inPos, outPos, outBuf). length inBuf - inPos)")
    (auto dest!: decodeChunk_progress)

declare uncompressLoop.simps [simp del]

text \<open>
  \<^verbatim>\<open>uncompressBuffer\<close> returns the uncompressed length, the output array, and the number
  of input bytes read (the C function only prints a warning when that differs from
  \<^verbatim>\<open>inLen\<close>). \<open>returnValue\<close> is the \<^verbatim>\<open>size_t\<close> the C function returns: 0 on failure.
\<close>

definition uncompressBuffer ::
  "byte list \<Rightarrow> byte list \<Rightarrow> nat \<Rightarrow> error + (nat \<times> byte list \<times> nat)" where
  "uncompressBuffer outBuf inBuf inLen =
     (case readByte inBuf 0 of
        None \<Rightarrow> Inl ReadOutsideInput
      | Some magic \<Rightarrow>
          if magic \<noteq> LZ4FH_MAGIC then Inl MissingMagic
          else (case uncompressLoop inBuf inLen 1 0 outBuf of
                  Inl e \<Rightarrow> Inl e
                | Inr (inPos, outPos, outBuf') \<Rightarrow> Inr (outPos, outBuf', inPos)))"

definition returnValue :: "error + (nat \<times> byte list \<times> nat) \<Rightarrow> nat" where
  "returnValue r = (case r of Inl e \<Rightarrow> 0 | Inr (n, outBuf, used) \<Rightarrow> n)"

lemma copyMatch_length:
  "copyMatch ob op src n = Some ob' \<Longrightarrow> length ob' = length ob"
  by (induction ob op src n rule: copyMatch.induct) (auto split: if_splits)

lemma copyMatch_Some:
  "src + n \<le> length ob \<Longrightarrow> op + n \<le> length ob \<Longrightarrow> \<exists>ob'. copyMatch ob op src n = Some ob'"
  by (induction ob op src n rule: copyMatch.induct) auto

lemma literalPhase_bounds:
  assumes "literalPhase inBuf inLen mixedLen inPos outPos outBuf = Inr (inPos1, outPos1, outBuf1)"
    and "outPos \<le> MAX_SIZE"
  shows "outPos \<le> outPos1 \<and> outPos1 \<le> MAX_SIZE \<and> length outBuf1 = length outBuf"
  using assms
  by (auto simp: literalPhase_def Let_def split: if_splits option.splits)

lemma literalPhase_no_write_fault:
  "length outBuf = MAX_SIZE \<Longrightarrow>
   literalPhase inBuf inLen mixedLen inPos outPos outBuf \<noteq> Inl WriteOutsideOutput"
  by (auto simp: literalPhase_def Let_def split: if_splits option.splits)

lemma copyPhase_bounds:
  assumes "copyPhase inBuf matchLen inPos outPos outBuf = NextChunk inPos1 outPos1 outBuf1"
    and "outPos \<le> MAX_SIZE"
  shows "outPos \<le> outPos1 \<and> outPos1 \<le> MAX_SIZE \<and> length outBuf1 = length outBuf"
  using assms
  by (auto simp: copyPhase_def Let_def split: if_splits option.splits dest: copyMatch_length)

lemma copyPhase_no_write_fault:
  assumes "length outBuf = MAX_SIZE"
  shows "copyPhase inBuf matchLen inPos outPos outBuf \<noteq> Failed WriteOutsideOutput"
proof -
  have "copyMatch outBuf outPos off (nat (matchLen + 4)) \<noteq> None"
    if "\<not> (int outPos + (matchLen + 4) > 8192 \<or> int off + (matchLen + 4) > 8192)" for off
  proof (cases "matchLen + 4 \<le> 0")
    case True
    then have "nat (matchLen + 4) = 0" by simp
    then show ?thesis by simp
  next
    case False
    with that assms have "off + nat (matchLen + 4) \<le> length outBuf"
      "outPos + nat (matchLen + 4) \<le> length outBuf" by auto
    from copyMatch_Some [OF this] show ?thesis by auto
  qed
  note key = this
  show ?thesis
  proof (cases "readByte inBuf inPos")
    case None
    then show ?thesis by (simp add: copyPhase_def Let_def)
  next
    case b0: (Some b0)
    show ?thesis
    proof (cases "readByte inBuf (inPos + 1)")
      case None
      with b0 show ?thesis by (simp add: copyPhase_def Let_def)
    next
      case b1: (Some b1)
      show ?thesis
      proof (cases "int outPos + (matchLen + 4) > 8192
                    \<or> int (unat b0 OR push_bit 8 (unat b1)) + (matchLen + 4) > 8192")
        case True
        with b0 b1 show ?thesis by (simp add: copyPhase_def Let_def)
      next
        case False
        from key [OF False] obtain ob' where
          "copyMatch outBuf outPos (unat b0 OR push_bit 8 (unat b1)) (nat (matchLen + 4)) = Some ob'"
          by auto
        with b0 b1 False show ?thesis by (simp add: copyPhase_def Let_def)
      qed
    qed
  qed
qed

lemma decodeChunk_bounds:
  assumes "decodeChunk inBuf inLen inPos outPos outBuf = r"
    and "outPos \<le> MAX_SIZE" and "length outBuf = MAX_SIZE"
  shows "r \<noteq> Failed WriteOutsideOutput
       \<and> (\<forall>ip op ob. r = NextChunk ip op ob \<or> r = Finished ip op ob
             \<longrightarrow> outPos \<le> op \<and> op \<le> MAX_SIZE \<and> length ob = MAX_SIZE)"
proof (cases "readByte inBuf inPos")
  case None
  with assms show ?thesis by (auto simp: decodeChunk_def)
next
  case (Some mixedLen)
  show ?thesis
  proof (cases "literalPhase inBuf inLen mixedLen (inPos + 1) outPos outBuf")
    case (Inl e)
    with Some assms literalPhase_no_write_fault [OF assms(3), of inBuf inLen mixedLen "inPos + 1" outPos]
    show ?thesis by (auto simp: decodeChunk_def)
  next
    case (Inr t)
    then obtain ip1 op1 ob1 where
      lp: "literalPhase inBuf inLen mixedLen (inPos + 1) outPos outBuf = Inr (ip1, op1, ob1)"
      by (cases t) auto
    from literalPhase_bounds [OF lp assms(2)] assms(3)
    have b1: "outPos \<le> op1" "op1 \<le> MAX_SIZE" "length ob1 = MAX_SIZE" by simp_all
    show ?thesis
    proof (cases "matchLenPhase inBuf mixedLen ip1")
      case HeaderFault
      with Some lp assms show ?thesis by (auto simp: decodeChunk_def)
    next
      case (EndOfData ip2)
      with Some lp assms b1 show ?thesis by (auto simp: decodeChunk_def)
    next
      case (MatchLen ml ip2)
      with Some lp assms(1) have r: "r = copyPhase inBuf ml ip2 op1 ob1"
        by (auto simp: decodeChunk_def)
      have "r \<noteq> Failed WriteOutsideOutput"
        unfolding r by (rule copyPhase_no_write_fault [OF b1(3)])
      moreover have "op1 \<le> op \<and> op \<le> MAX_SIZE \<and> length ob = MAX_SIZE"
        if "r = NextChunk ip op ob" for ip op ob
        using copyPhase_bounds [OF that [unfolded r] b1(2)] b1(3) by simp
      moreover have "r \<noteq> Finished ip op ob" for ip op ob
        unfolding r by (auto simp: copyPhase_def Let_def split: option.splits)
      ultimately show ?thesis using b1(1) by force
    qed
  qed
qed

lemma uncompressLoop_bounds:
  assumes "outPos \<le> MAX_SIZE" and "length outBuf = MAX_SIZE"
  shows "uncompressLoop inBuf inLen inPos outPos outBuf \<noteq> Inl WriteOutsideOutput
       \<and> (\<forall>ip op ob. uncompressLoop inBuf inLen inPos outPos outBuf = Inr (ip, op, ob)
             \<longrightarrow> op \<le> MAX_SIZE \<and> length ob = MAX_SIZE)"
  using assms
proof (induction inBuf inLen inPos outPos outBuf rule: uncompressLoop.induct)
  case (1 inBuf inLen inPos outPos outBuf)
  note b = decodeChunk_bounds [OF refl "1.prems"]
  show ?case
  proof (cases "decodeChunk inBuf inLen inPos outPos outBuf")
    case (Failed e)
    with b show ?thesis by (subst uncompressLoop.simps, subst uncompressLoop.simps) auto
  next
    case (Finished ip op ob)
    with b show ?thesis by (subst uncompressLoop.simps, subst uncompressLoop.simps) auto
  next
    case (NextChunk ip op ob)
    with b have "op \<le> MAX_SIZE" "length ob = MAX_SIZE" by auto
    from "1.IH" [OF NextChunk this] NextChunk show ?thesis
      by (subst uncompressLoop.simps, subst uncompressLoop.simps) simp
  qed
qed

lemma copyMatch_frame:
  "copyMatch ob op src n = Some ob' \<Longrightarrow> i < op \<Longrightarrow> ob' ! i = ob ! i"
  by (induction ob op src n rule: copyMatch.induct) (auto split: if_splits)

lemma copyMatch_forward:
  "copyMatch ob op src n = Some ob' \<Longrightarrow> op \<le> src \<Longrightarrow> k < n \<Longrightarrow> ob' ! (op + k) = ob ! (src + k)"
proof (induction ob op src n arbitrary: k rule: copyMatch.induct)
  case (1 outBuf outPos srcPos)
  then show ?case by simp
next
  case (2 outBuf outPos srcPos matchLen)
  from "2.prems"(1) have g: "srcPos < length outBuf \<and> outPos < length outBuf"
    and run: "copyMatch (outBuf[outPos := outBuf ! srcPos]) (Suc outPos) (Suc srcPos) matchLen = Some ob'"
    by (auto split: if_splits)
  show ?case
  proof (cases k)
    case 0
    from copyMatch_frame [OF run, of outPos] g 0 show ?thesis by simp
  next
    case (Suc k')
    with "2.prems" have "k' < matchLen" by simp
    from "2.IH" [OF g run _ this] "2.prems"(2)
    have "ob' ! (Suc outPos + k') = (outBuf[outPos := outBuf ! srcPos]) ! (Suc srcPos + k')" by simp
    with Suc "2.prems"(2) show ?thesis by simp
  qed
qed

lemma copyPhase_accepts:
  assumes "length outBuf = MAX_SIZE"
    and "readByte inBuf inPos = Some b0" and "readByte inBuf (inPos + 1) = Some b1"
    and "0 < matchLen + 4"
    and "\<not> (int outPos + (matchLen + 4) > 8192
            \<or> int (unat b0 OR push_bit 8 (unat b1)) + (matchLen + 4) > 8192)"
  shows "\<exists>ob'. copyPhase inBuf matchLen inPos outPos outBuf
               = NextChunk (inPos + 2) (outPos + nat (matchLen + 4)) ob'
             \<and> copyMatch outBuf outPos (unat b0 OR push_bit 8 (unat b1)) (nat (matchLen + 4)) = Some ob'
             \<and> length ob' = MAX_SIZE"
proof -
  from assms have "(unat b0 OR push_bit 8 (unat b1)) + nat (matchLen + 4) \<le> length outBuf"
    "outPos + nat (matchLen + 4) \<le> length outBuf" by auto
  from copyMatch_Some [OF this] obtain ob' where
    c: "copyMatch outBuf outPos (unat b0 OR push_bit 8 (unat b1)) (nat (matchLen + 4)) = Some ob'"
    by auto
  from copyMatch_length [OF c] assms(1) have "length ob' = MAX_SIZE" by simp
  with c assms show ?thesis by (simp add: copyPhase_def Let_def)
qed

lemma copyPhase_rejects:
  assumes "readByte inBuf inPos = Some b0" and "readByte inBuf (inPos + 1) = Some b1"
    and "matchLen + 4 \<noteq> 0"
    and "int outPos + (matchLen + 4) > 8192
            \<or> int (unat b0 OR push_bit 8 (unat b1)) + (matchLen + 4) > 8192"
  shows "copyPhase inBuf matchLen inPos outPos outBuf = Failed BufferOverrunM"
  using assms by (simp add: copyPhase_def Let_def)

lemma uncompressLoop_Failed:
  "decodeChunk inBuf inLen ip op ob = Failed e \<Longrightarrow> uncompressLoop inBuf inLen ip op ob = Inl e"
  by (subst uncompressLoop.simps) simp

lemma uncompressLoop_Finished:
  "decodeChunk inBuf inLen ip op ob = Finished ip' op' ob'
   \<Longrightarrow> uncompressLoop inBuf inLen ip op ob = Inr (ip', op', ob')"
  by (subst uncompressLoop.simps) simp

lemma uncompressLoop_NextChunk:
  "decodeChunk inBuf inLen ip op ob = NextChunk ip' op' ob'
   \<Longrightarrow> uncompressLoop inBuf inLen ip op ob = uncompressLoop inBuf inLen ip' op' ob'"
  by (subst uncompressLoop.simps) simp

text \<open>
  The literal length a chunk at \<open>inPos\<close> announces, with the position of its first
  literal: the high nibble of the mixed-length byte, plus the extension byte when the
  nibble is 15.
\<close>

definition literalHeader :: "byte list \<Rightarrow> nat \<Rightarrow> (nat \<times> nat) option" where
  "literalHeader inBuf inPos =
     (case readByte inBuf inPos of
        None \<Rightarrow> None
      | Some mixedLen \<Rightarrow>
          if unat (drop_bit 4 mixedLen) = INITIAL_LEN
          then map_option (\<lambda>b. (INITIAL_LEN + unat b, inPos + 2)) (readByte inBuf (inPos + 1))
          else Some (unat (drop_bit 4 mixedLen), inPos + 1))"

lemma decodeChunk_literal_overrun:
  assumes "literalHeader inBuf inPos = Some (literalLen, inPos1)"
    and "0 < literalLen"
    and "outPos + literalLen > MAX_SIZE \<or> inPos1 + literalLen > inLen"
  shows "decodeChunk inBuf inLen inPos outPos outBuf = Failed BufferOverrunL"
  using assms
  by (auto simp: literalHeader_def decodeChunk_def literalPhase_def Let_def
      split: option.splits if_splits)

lemma decodeChunk_match_overrun:
  assumes "readByte inBuf inPos = Some mixedLen"
    and "literalPhase inBuf inLen mixedLen (inPos + 1) outPos outBuf = Inr (inPos1, outPos1, outBuf1)"
    and "matchLenPhase inBuf mixedLen inPos1 = MatchLen matchLen inPos2"
    and "readByte inBuf inPos2 = Some b0" and "readByte inBuf (inPos2 + 1) = Some b1"
    and "matchLen + 4 \<noteq> 0"
    and "int outPos1 + (matchLen + 4) > 8192
            \<or> int (unat b0 OR push_bit 8 (unat b1)) + (matchLen + 4) > 8192"
  shows "decodeChunk inBuf inLen inPos outPos outBuf = Failed BufferOverrunM"
  using assms copyPhase_rejects [OF assms(4,5,6,7)]
  by (simp add: decodeChunk_def)

lemma uncompressBuffer_bounds_aux:
  assumes "length outBuf = MAX_SIZE"
  shows "uncompressBuffer outBuf inBuf inLen \<noteq> Inl WriteOutsideOutput
       \<and> (\<forall>n ob used. uncompressBuffer outBuf inBuf inLen = Inr (n, ob, used)
             \<longrightarrow> n \<le> MAX_SIZE \<and> length ob = MAX_SIZE)"
proof -
  have z: "(0::nat) \<le> MAX_SIZE" by simp
  note b = uncompressLoop_bounds [OF z assms, of inBuf inLen 1]
  show ?thesis
  proof (cases "uncompressLoop inBuf inLen 1 0 outBuf")
    case (Inl e)
    with b show ?thesis by (auto simp: uncompressBuffer_def split: option.splits)
  next
    case (Inr t)
    then obtain ip op ob where "uncompressLoop inBuf inLen 1 0 outBuf = Inr (ip, op, ob)"
      by (cases t) auto
    with b show ?thesis by (auto simp: uncompressBuffer_def split: option.splits)
  qed
qed

text \<open>
  C6. With an output array of 8192 bytes the decoder never copies outside it: no run
  ends in the model's out-of-array write, and a successful run returns a length of at
  most 8192 and an array of the same size. Where a chunk announces literals that would
  push the output position beyond 8192, the decoder returns the error
  \<open>BufferOverrunL\<close> at that chunk; where a match has output position plus length, or
  offset plus length, beyond 8192, it returns \<open>BufferOverrunM\<close> at that chunk (after the
  literals of the chunk, before the match is copied). An error is the return value 0.
\<close>

theorem uncompressBuffer_output_bounded:
  assumes "length outBuf = MAX_SIZE"
  shows "uncompressBuffer outBuf inBuf inLen \<noteq> Inl WriteOutsideOutput
       \<and> (\<forall>n ob used. uncompressBuffer outBuf inBuf inLen = Inr (n, ob, used)
             \<longrightarrow> n \<le> MAX_SIZE \<and> length ob = MAX_SIZE)
       \<and> (\<forall>e. uncompressBuffer outBuf inBuf inLen = Inl e
             \<longrightarrow> returnValue (uncompressBuffer outBuf inBuf inLen) = 0)
       \<and> (\<forall>inPos outPos ob literalLen inPos1.
             literalHeader inBuf inPos = Some (literalLen, inPos1) \<and> 0 < literalLen
             \<and> outPos + literalLen > MAX_SIZE
             \<longrightarrow> uncompressLoop inBuf inLen inPos outPos ob = Inl BufferOverrunL)
       \<and> (\<forall>inPos outPos ob mixedLen inPos1 outPos1 ob1 matchLen inPos2 b0 b1.
             readByte inBuf inPos = Some mixedLen
             \<and> literalPhase inBuf inLen mixedLen (inPos + 1) outPos ob = Inr (inPos1, outPos1, ob1)
             \<and> matchLenPhase inBuf mixedLen inPos1 = MatchLen matchLen inPos2
             \<and> readByte inBuf inPos2 = Some b0 \<and> readByte inBuf (inPos2 + 1) = Some b1
             \<and> matchLen + 4 \<noteq> 0
             \<and> (int outPos1 + (matchLen + 4) > 8192
                  \<or> int (unat b0 OR push_bit 8 (unat b1)) + (matchLen + 4) > 8192)
             \<longrightarrow> uncompressLoop inBuf inLen inPos outPos ob = Inl BufferOverrunM)"
proof -
  have "returnValue (uncompressBuffer outBuf inBuf inLen) = 0"
    if "uncompressBuffer outBuf inBuf inLen = Inl e" for e
    using that by (simp add: returnValue_def)
  moreover have "uncompressLoop inBuf inLen inPos outPos ob = Inl BufferOverrunL"
    if "literalHeader inBuf inPos = Some (literalLen, inPos1)" "0 < literalLen"
      "outPos + literalLen > MAX_SIZE" for inPos outPos ob literalLen inPos1
    using decodeChunk_literal_overrun [OF that(1,2)] that(3)
    by (simp add: uncompressLoop_Failed)
  moreover have "uncompressLoop inBuf inLen inPos outPos ob = Inl BufferOverrunM"
    if "readByte inBuf inPos = Some mixedLen"
      "literalPhase inBuf inLen mixedLen (inPos + 1) outPos ob = Inr (inPos1, outPos1, ob1)"
      "matchLenPhase inBuf mixedLen inPos1 = MatchLen matchLen inPos2"
      "readByte inBuf inPos2 = Some b0" "readByte inBuf (inPos2 + 1) = Some b1"
      "matchLen + 4 \<noteq> 0"
      "int outPos1 + (matchLen + 4) > 8192
          \<or> int (unat b0 OR push_bit 8 (unat b1)) + (matchLen + 4) > 8192"
    for inPos outPos ob mixedLen inPos1 outPos1 ob1 matchLen inPos2 b0 b1
    using decodeChunk_match_overrun [OF that] by (rule uncompressLoop_Failed)
  ultimately show ?thesis using uncompressBuffer_bounds_aux [OF assms, of inBuf inLen]
    by blast
qed

theorem uncompressBuffer_output_bounded_witness:
  "length (replicate 8192 (0xcc :: byte)) = MAX_SIZE
   \<and> uncompressBuffer (replicate 8192 0xcc) [0x66, 0xff, 0xff, 0x01] 4 \<noteq> Inl WriteOutsideOutput
   \<and> literalHeader [0x66, 0xff, 0xff, 0x01] 1 = Some (270, 3)
   \<and> uncompressLoop [0x66, 0xff, 0xff, 0x01] 4 1 8000 (replicate 8192 0xcc) = Inl BufferOverrunL"
proof -
  have l: "length (replicate 8192 (0xcc :: byte)) = MAX_SIZE" by simp
  have h: "literalHeader [0x66, 0xff, 0xff, 0x01] 1 = Some (270, 3)"
    by (simp add: literalHeader_def readByte_def)
  from uncompressBuffer_output_bounded [OF l, of "[0x66, 0xff, 0xff, 0x01]" 4] h l
  show ?thesis by simp
qed

definition bytesRead :: "error + (nat \<times> byte list \<times> nat) \<Rightarrow> nat" where
  "bytesRead r = (case r of Inl e \<Rightarrow> 0 | Inr (n, outBuf, used) \<Rightarrow> used)"

lemma decodeChunk_no_literals:
  assumes "readByte inBuf inPos = Some mixedLen" and "unat (drop_bit 4 mixedLen) = 0"
  shows "decodeChunk inBuf inLen inPos outPos outBuf =
           (case matchLenPhase inBuf mixedLen (inPos + 1) of
              HeaderFault \<Rightarrow> Failed ReadOutsideInput
            | EndOfData inPos2 \<Rightarrow> Finished inPos2 outPos outBuf
            | MatchLen matchLen inPos2 \<Rightarrow> copyPhase inBuf matchLen inPos2 outPos outBuf)"
  using assms by (simp add: decodeChunk_def literalPhase_def)

subsection \<open>Match offsets\<close>

lemma literalPhase_length:
  assumes "literalPhase inBuf inLen mixedLen inPos outPos outBuf = Inr (inPos1, outPos1, outBuf1)"
  shows "length outBuf1 = length outBuf"
  using assms
  by (auto simp: literalPhase_def Let_def split: if_splits option.splits)

lemma literalPhase_frame:
  assumes "literalPhase inBuf inLen mixedLen inPos outPos outBuf = Inr (inPos1, outPos1, outBuf1)"
    and "outPos1 \<le> j"
  shows "outBuf1 ! j = outBuf ! j"
proof (cases "unat (drop_bit 4 mixedLen) = 0")
  case True
  with assms show ?thesis by (simp add: literalPhase_def)
next
  case False
  with assms(1) obtain literalLen ip where
    ob1: "outBuf1 = take outPos outBuf @ take literalLen (drop ip inBuf)
                     @ drop (outPos + literalLen) outBuf"
    and op1: "outPos1 = outPos + literalLen"
    and i: "ip + literalLen \<le> length inBuf" and ob: "outPos + literalLen \<le> length outBuf"
    by (auto simp: literalPhase_def Let_def split: if_splits option.splits)
  let ?A = "take outPos outBuf" and ?B = "take literalLen (drop ip inBuf)"
  let ?C = "drop (outPos + literalLen) outBuf"
  from ob have l1: "length ?A = outPos" by simp
  from i have l2: "length ?B = literalLen" by simp
  from assms(2) op1 obtain d where jd: "j = outPos + literalLen + d"
    using le_Suc_ex by blast
  have e: "j = length ?A + (length ?B + d)" unfolding l1 l2 jd by simp
  have "(?A @ ?B @ ?C) ! (length ?A + (length ?B + d)) = ?C ! d"
    by (simp only: nth_append_length_plus)
  then have "outBuf1 ! j = ?C ! d" unfolding ob1 e .
  also from ob have "\<dots> = outBuf ! j" unfolding jd by simp
  finally show ?thesis .
qed

lemma copyMatch_frame_above:
  "copyMatch ob op src n = Some ob' \<Longrightarrow> op + n \<le> j \<Longrightarrow> ob' ! j = ob ! j"
  by (induction ob op src n rule: copyMatch.induct) (auto split: if_splits)

lemma decodeChunk_frame:
  assumes d: "decodeChunk inBuf inLen inPos outPos ob = NextChunk inPos' outPos' ob'"
    and j: "outPos' \<le> j"
  shows "ob' ! j = ob ! j"
proof -
  from d obtain mixedLen where rb: "readByte inBuf inPos = Some mixedLen"
    by (auto simp: decodeChunk_def split: option.splits)
  from d rb obtain inPos1 outPos1 ob1 where
    lp: "literalPhase inBuf inLen mixedLen (inPos + 1) outPos ob = Inr (inPos1, outPos1, ob1)"
    by (auto simp: decodeChunk_def split: sum.splits)
  from d rb lp obtain matchLen inPos2 where
    cp: "copyPhase inBuf matchLen inPos2 outPos1 ob1 = NextChunk inPos' outPos' ob'"
    by (auto simp: decodeChunk_def split: matchHeader.splits)
  have "outPos1 \<le> outPos' \<and> ob' ! j = ob1 ! j"
  proof (cases "matchLen + 4 = 0")
    case True
    with cp show ?thesis by (simp add: copyPhase_def)
  next
    case False
    with cp have "\<exists>off. copyMatch ob1 outPos1 off (nat (matchLen + 4)) = Some ob'
                    \<and> outPos' = outPos1 + nat (matchLen + 4)"
      by (auto simp: copyPhase_def Let_def split: option.splits if_splits)
    then obtain off where
      c: "copyMatch ob1 outPos1 off (nat (matchLen + 4)) = Some ob'"
      and o: "outPos' = outPos1 + nat (matchLen + 4)" by blast
    from copyMatch_frame_above [OF c] j o show ?thesis by simp
  qed
  with literalPhase_frame [OF lp, of j] j show ?thesis by simp
qed

text \<open>
  \<open>chunkState inBuf inLen outBuf n\<close> is the state of the \<^verbatim>\<open>while (true)\<close> loop at the head of
  its iteration \<open>n\<close> (counted from 0) in the call \<^verbatim>\<open>uncompressBuffer(outBuf, inBuf, inLen)\<close>:
  \<^verbatim>\<open>inPtr\<close>, \<^verbatim>\<open>outPtr\<close> and the output array; \<open>None\<close> when the loop has ended before.
\<close>

fun chunkState :: "byte list \<Rightarrow> nat \<Rightarrow> byte list \<Rightarrow> nat \<Rightarrow> (nat \<times> nat \<times> byte list) option" where
  "chunkState inBuf inLen outBuf 0 = Some (1, 0, outBuf)"
| "chunkState inBuf inLen outBuf (Suc n) =
     (case chunkState inBuf inLen outBuf n of
        None \<Rightarrow> None
      | Some (inPos, outPos, ob) \<Rightarrow>
          (case decodeChunk inBuf inLen inPos outPos ob of
             NextChunk inPos' outPos' ob' \<Rightarrow> Some (inPos', outPos', ob')
           | Failed e \<Rightarrow> None
           | Finished inPos' outPos' ob' \<Rightarrow> None))"

lemma chunkState_loop:
  "chunkState inBuf inLen outBuf n = Some (inPos, outPos, ob)
   \<Longrightarrow> uncompressLoop inBuf inLen 1 0 outBuf = uncompressLoop inBuf inLen inPos outPos ob"
proof (induction n arbitrary: inPos outPos ob)
  case 0
  then show ?case by simp
next
  case (Suc n)
  from Suc.prems obtain ip op o1 where
    s: "chunkState inBuf inLen outBuf n = Some (ip, op, o1)"
    and d: "decodeChunk inBuf inLen ip op o1 = NextChunk inPos outPos ob"
    by (auto split: option.splits chunkResult.splits)
  from Suc.IH [OF s] uncompressLoop_NextChunk [OF d] show ?case by simp
qed

lemma chunkState_frame:
  assumes "length outBuf = MAX_SIZE"
  shows "chunkState inBuf inLen outBuf n = Some (inPos, outPos, ob)
         \<Longrightarrow> outPos \<le> MAX_SIZE \<and> length ob = MAX_SIZE \<and> (\<forall>j\<ge>outPos. ob ! j = outBuf ! j)"
proof (induction n arbitrary: inPos outPos ob)
  case 0
  with assms show ?case by simp
next
  case (Suc n)
  from Suc.prems obtain ip op o1 where
    s: "chunkState inBuf inLen outBuf n = Some (ip, op, o1)"
    and d: "decodeChunk inBuf inLen ip op o1 = NextChunk inPos outPos ob"
    by (auto split: option.splits chunkResult.splits)
  from Suc.IH [OF s] have b: "op \<le> MAX_SIZE" "length o1 = MAX_SIZE"
    and f: "\<forall>j\<ge>op. o1 ! j = outBuf ! j" by simp_all
  from decodeChunk_bounds [OF d b] have n: "op \<le> outPos" "outPos \<le> MAX_SIZE"
    "length ob = MAX_SIZE" by simp_all
  have "ob ! j = outBuf ! j" if "outPos \<le> j" for j
    using decodeChunk_frame [OF d that] f n(1) that by simp
  with n show ?case by simp
qed

text \<open>
  C10. The decoder does not compare a match offset with the output position. In a call
  of \<open>uncompressBuffer\<close> with an output array of 8192 bytes, take the chunk of any
  iteration \<open>n\<close> of the loop that the run comes to, whose literals are accepted (they end
  at the output position \<open>outPos1\<close>) and which announces a match of \<open>matchLen + 4 > 0\<close>
  bytes with the offset bytes \<open>b0\<close>, \<open>b1\<close>. The chunk is rejected exactly when \<open>outPos1\<close>
  plus the length, or the offset plus the length, exceeds 8192; then \<open>uncompressBuffer\<close>
  returns the error \<open>BufferOverrunM\<close> (return value 0). Otherwise the chunk is accepted
  whatever the offset is and the run goes on with the next chunk; when the offset is at
  or beyond \<open>outPos1\<close>, every copied byte is the byte that the output array held at the
  source position when \<open>uncompressBuffer\<close> was called: the decoder has not written it.
\<close>

theorem uncompressBuffer_offset_unchecked:
  assumes "length outBuf = MAX_SIZE"
    and "readByte inBuf 0 = Some LZ4FH_MAGIC"
    and "chunkState inBuf inLen outBuf n = Some (inPos, outPos, ob)"
    and "readByte inBuf inPos = Some mixedLen"
    and "literalPhase inBuf inLen mixedLen (inPos + 1) outPos ob = Inr (inPos1, outPos1, ob1)"
    and "matchLenPhase inBuf mixedLen inPos1 = MatchLen matchLen inPos2"
    and "0 < matchLen + 4"
    and "readByte inBuf inPos2 = Some b0" and "readByte inBuf (inPos2 + 1) = Some b1"
  shows "((\<exists>e. decodeChunk inBuf inLen inPos outPos ob = Failed e)
          \<longleftrightarrow> (int outPos1 + (matchLen + 4) > 8192
               \<or> int (unat b0 OR push_bit 8 (unat b1)) + (matchLen + 4) > 8192))
       \<and> ((int outPos1 + (matchLen + 4) > 8192
               \<or> int (unat b0 OR push_bit 8 (unat b1)) + (matchLen + 4) > 8192)
          \<longrightarrow> decodeChunk inBuf inLen inPos outPos ob = Failed BufferOverrunM
            \<and> uncompressBuffer outBuf inBuf inLen = Inl BufferOverrunM
            \<and> returnValue (uncompressBuffer outBuf inBuf inLen) = 0)
       \<and> (\<not> (int outPos1 + (matchLen + 4) > 8192
               \<or> int (unat b0 OR push_bit 8 (unat b1)) + (matchLen + 4) > 8192)
          \<longrightarrow> (\<exists>ob'. decodeChunk inBuf inLen inPos outPos ob
                        = NextChunk (inPos2 + 2) (outPos1 + nat (matchLen + 4)) ob'
                    \<and> chunkState inBuf inLen outBuf (Suc n)
                        = Some (inPos2 + 2, outPos1 + nat (matchLen + 4), ob')
                    \<and> uncompressBuffer outBuf inBuf inLen
                        = (case uncompressLoop inBuf inLen (inPos2 + 2)
                                  (outPos1 + nat (matchLen + 4)) ob' of
                             Inl e \<Rightarrow> Inl e
                           | Inr (ip, op, ob2) \<Rightarrow> Inr (op, ob2, ip))
                    \<and> (outPos1 \<le> unat b0 OR push_bit 8 (unat b1) \<longrightarrow>
                         (\<forall>k<nat (matchLen + 4).
                            ob' ! (outPos1 + k)
                              = outBuf ! ((unat b0 OR push_bit 8 (unat b1)) + k)))))"
proof -
  let ?off = "unat b0 OR push_bit 8 (unat b1)"
  let ?over = "int outPos1 + (matchLen + 4) > 8192 \<or> int ?off + (matchLen + 4) > 8192"
  let ?len = "nat (matchLen + 4)"
  note st = chunkState_frame [OF assms(1,3)]
  from st have lo: "length ob = MAX_SIZE" and fr: "\<forall>j\<ge>outPos. ob ! j = outBuf ! j" by simp_all
  have dc: "decodeChunk inBuf inLen inPos outPos ob = copyPhase inBuf matchLen inPos2 outPos1 ob1"
    using assms(4,5,6) by (simp add: decodeChunk_def)
  have l1: "length ob1 = MAX_SIZE" using literalPhase_length [OF assms(5)] lo by simp
  from st literalPhase_bounds [OF assms(5)] have o1: "outPos \<le> outPos1" by simp
  have ub: "uncompressBuffer outBuf inBuf inLen
              = (case uncompressLoop inBuf inLen inPos outPos ob of
                   Inl e \<Rightarrow> Inl e | Inr (ip, op, ob2) \<Rightarrow> Inr (op, ob2, ip))"
    using assms(2) chunkState_loop [OF assms(3)] by (simp add: uncompressBuffer_def)
  have rej: "decodeChunk inBuf inLen inPos outPos ob = Failed BufferOverrunM
            \<and> uncompressBuffer outBuf inBuf inLen = Inl BufferOverrunM
            \<and> returnValue (uncompressBuffer outBuf inBuf inLen) = 0" if "?over"
  proof -
    from assms(7) have "matchLen + 4 \<noteq> 0" by simp
    from copyPhase_rejects [OF assms(8,9) this that] dc
    have d: "decodeChunk inBuf inLen inPos outPos ob = Failed BufferOverrunM" by simp
    from uncompressLoop_Failed [OF d]
    have u: "uncompressLoop inBuf inLen inPos outPos ob = Inl BufferOverrunM" .
    from d u ub show ?thesis by (simp add: returnValue_def)
  qed
  have acc: "\<exists>ob'. decodeChunk inBuf inLen inPos outPos ob
                        = NextChunk (inPos2 + 2) (outPos1 + ?len) ob'
                    \<and> chunkState inBuf inLen outBuf (Suc n)
                        = Some (inPos2 + 2, outPos1 + ?len, ob')
                    \<and> uncompressBuffer outBuf inBuf inLen
                        = (case uncompressLoop inBuf inLen (inPos2 + 2) (outPos1 + ?len) ob' of
                             Inl e \<Rightarrow> Inl e
                           | Inr (ip, op, ob2) \<Rightarrow> Inr (op, ob2, ip))
                    \<and> (outPos1 \<le> ?off \<longrightarrow>
                         (\<forall>k<?len. ob' ! (outPos1 + k) = outBuf ! (?off + k)))"
    if "\<not> ?over"
  proof -
    from copyPhase_accepts [OF l1 assms(8,9,7) that] obtain ob' where
      r: "copyPhase inBuf matchLen inPos2 outPos1 ob1 = NextChunk (inPos2 + 2) (outPos1 + ?len) ob'"
      and c: "copyMatch ob1 outPos1 ?off ?len = Some ob'" by blast
    from r dc have d: "decodeChunk inBuf inLen inPos outPos ob
                        = NextChunk (inPos2 + 2) (outPos1 + ?len) ob'" by simp
    note u = uncompressLoop_NextChunk [OF d]
    from assms(3) d have s: "chunkState inBuf inLen outBuf (Suc n)
                        = Some (inPos2 + 2, outPos1 + ?len, ob')" by simp
    have "ob' ! (outPos1 + k) = outBuf ! (?off + k)" if "outPos1 \<le> ?off" "k < ?len" for k
    proof -
      from copyMatch_forward [OF c that] have "ob' ! (outPos1 + k) = ob1 ! (?off + k)" .
      also from that(1) have "\<dots> = ob ! (?off + k)"
        by (intro literalPhase_frame [OF assms(5)]) simp
      also from that(1) o1 fr have "\<dots> = outBuf ! (?off + k)" by simp
      finally show ?thesis .
    qed
    with d s u ub show ?thesis by auto
  qed
  have "(\<exists>e. decodeChunk inBuf inLen inPos outPos ob = Failed e) \<longleftrightarrow> ?over"
  proof
    assume "\<exists>e. decodeChunk inBuf inLen inPos outPos ob = Failed e"
    then show "?over" using acc by (cases "?over") auto
  next
    assume "?over"
    from rej [OF this] show "\<exists>e. decodeChunk inBuf inLen inPos outPos ob = Failed e" by blast
  qed
  with rej acc show ?thesis by blast
qed

theorem uncompressBuffer_offset_unchecked_witness:
  "\<exists>ob'. uncompressBuffer (map of_nat [0..<8192]) [0x66, 0x00, 0x10, 0x00, 0x0f, 0xfe] 6
            = Inr (4, ob', 6)
        \<and> ob' ! 0 = 16 \<and> ob' ! 1 = 17 \<and> ob' ! 2 = 18 \<and> ob' ! 3 = 19"
proof -
  let ?inBuf = "[0x66, 0x00, 0x10, 0x00, 0x0f, 0xfe] :: byte list"
  let ?ob = "map of_nat [0..<8192] :: byte list"
  have l: "length ?ob = MAX_SIZE" by simp
  have r0: "readByte ?inBuf 0 = Some LZ4FH_MAGIC" by (simp add: readByte_def)
  have s0: "chunkState ?inBuf 6 ?ob 0 = Some (1, 0, ?ob)" by simp
  have r1: "readByte ?inBuf 1 = Some 0x00" by (simp add: readByte_def)
  have lp: "literalPhase ?inBuf 6 0x00 (1 + 1) 0 ?ob = Inr (2, 0, ?ob)"
    by (simp add: literalPhase_def)
  have mp: "matchLenPhase ?inBuf 0x00 2 = MatchLen 0 2" by (simp add: matchLenPhase_def)
  have m: "(0::int) < 0 + 4" by simp
  have b0: "readByte ?inBuf 2 = Some 0x10" and b1: "readByte ?inBuf (2 + 1) = Some 0x00"
    by (simp_all add: readByte_def)
  from uncompressBuffer_offset_unchecked [OF l r0 s0 r1 lp mp m b0 b1]
  obtain ob' where
    u: "uncompressBuffer ?ob ?inBuf 6
          = (case uncompressLoop ?inBuf 6 4 4 ob' of
               Inl e \<Rightarrow> Inl e | Inr (ip, op, ob2) \<Rightarrow> Inr (op, ob2, ip))"
    and c: "\<forall>k<4. ob' ! k = ?ob ! (16 + k)"
    by auto
  have r4: "readByte ?inBuf 4 = Some 0x0f" by (simp add: readByte_def)
  have z2: "unat (drop_bit 4 (0x0f :: byte)) = 0" by simp
  have mp2: "matchLenPhase ?inBuf 0x0f (4 + 1) = EndOfData 6"
    by (simp add: matchLenPhase_def readByte_def)
  have d2: "decodeChunk ?inBuf 6 4 4 ob' = Finished 6 4 ob'"
    by (simp only: decodeChunk_no_literals [OF r4 z2] mp2 matchHeader.case)
  from u have u': "uncompressBuffer ?ob ?inBuf 6 = Inr (4, ob', 6)"
    by (simp only: uncompressLoop_Finished [OF d2] sum.case prod.case)
  from c have "ob' ! 0 = ?ob ! 16" "ob' ! 1 = ?ob ! 17" "ob' ! 2 = ?ob ! 18" "ob' ! 3 = ?ob ! 19"
    by simp_all
  then have "ob' ! 0 = 16" "ob' ! 1 = 17" "ob' ! 2 = 18" "ob' ! 3 = 19" by simp_all
  with u' show ?thesis by blast
qed

subsection \<open>Input that ends inside a chunk\<close>

text \<open>
  C7, as the code has it. Input that ends partway through the two-byte match offset is
  not detected: with \<open>inLen = 3\<close> the data \<open>66 00 10\<close> ends after the first offset byte,
  the decoder reads the bytes that follow in the array, returns 4 (success) and has read
  6 bytes.
\<close>

theorem uncompressBuffer_truncated_offset_accepted:
  "returnValue (uncompressBuffer (replicate 8192 0xcc) [0x66, 0x00, 0x10, 0x00, 0x0f, 0xfe] 3) = 4
   \<and> bytesRead (uncompressBuffer (replicate 8192 0xcc) [0x66, 0x00, 0x10, 0x00, 0x0f, 0xfe] 3) = 6"
proof -
  let ?inBuf = "[0x66, 0x00, 0x10, 0x00, 0x0f, 0xfe] :: byte list"
  let ?ob = "replicate 8192 (0xcc :: byte)"
  have l: "length ?ob = MAX_SIZE" by simp
  have b0: "readByte ?inBuf 2 = Some 0x10" and b1: "readByte ?inBuf (2 + 1) = Some 0x00"
    by (simp_all add: readByte_def)
  have m: "(0::int) < 0 + 4" by simp
  have g: "\<not> (int 0 + (0 + 4) > 8192
            \<or> int (unat (0x10 :: byte) OR push_bit 8 (unat (0x00 :: byte))) + (0 + 4) > 8192)"
    by simp
  from copyPhase_accepts [OF l b0 b1 m g] obtain ob' where
    c: "copyPhase ?inBuf 0 2 0 ?ob = NextChunk 4 4 ob'" by auto
  have r1: "readByte ?inBuf 1 = Some 0x00" by (simp add: readByte_def)
  have mp1: "matchLenPhase ?inBuf 0x00 (1 + 1) = MatchLen 0 2"
    by (simp add: matchLenPhase_def)
  have z: "unat (drop_bit 4 (0x00 :: byte)) = 0" by simp
  have d1: "decodeChunk ?inBuf 3 1 0 ?ob = NextChunk 4 4 ob'"
    by (simp only: decodeChunk_no_literals [OF r1 z] mp1 matchHeader.case c)
  have r4: "readByte ?inBuf 4 = Some 0x0f" by (simp add: readByte_def)
  have mp2: "matchLenPhase ?inBuf 0x0f (4 + 1) = EndOfData 6"
    by (simp add: matchLenPhase_def readByte_def)
  have z2: "unat (drop_bit 4 (0x0f :: byte)) = 0" by simp
  have d2: "decodeChunk ?inBuf 3 4 4 ob' = Finished 6 4 ob'"
    by (simp only: decodeChunk_no_literals [OF r4 z2] mp2 matchHeader.case)
  have "uncompressLoop ?inBuf 3 1 0 ?ob = Inr (6, 4, ob')"
    by (simp only: uncompressLoop_NextChunk [OF d1] uncompressLoop_Finished [OF d2])
  moreover have "readByte ?inBuf 0 = Some 0x66" by (simp add: readByte_def)
  ultimately have "uncompressBuffer ?ob ?inBuf 3 = Inr (4, ob', 6)"
    by (simp only: uncompressBuffer_def option.case sum.case prod.case simp_thms if_False)
  then show ?thesis by (simp add: returnValue_def bytesRead_def)
qed

text \<open>
  C7, amended. The decoder compares the input position with \<open>inLen\<close> only before it
  copies literals: a chunk whose literals would extend past \<open>inLen\<close> fails with
  \<open>BufferOverrunL\<close>. A chunk that announces no literals is decoded as it would be with
  \<open>inLen = 0\<close>: its mixed-length byte, extension byte and offset bytes are read from the
  array whether or not they lie within the first \<open>inLen\<close> bytes.
\<close>

theorem uncompressLoop_truncation_checked_for_literals_only:
  "(literalHeader inBuf inPos = Some (literalLen, inPos1) \<and> 0 < literalLen
      \<and> inPos1 + literalLen > inLen
      \<longrightarrow> uncompressLoop inBuf inLen inPos outPos outBuf = Inl BufferOverrunL)
   \<and> (literalHeader inBuf inPos = Some (0, inPos1)
      \<longrightarrow> decodeChunk inBuf inLen inPos outPos outBuf = decodeChunk inBuf 0 inPos outPos outBuf)"
proof -
  have "uncompressLoop inBuf inLen inPos outPos outBuf = Inl BufferOverrunL"
    if "literalHeader inBuf inPos = Some (literalLen, inPos1)" "0 < literalLen"
      "inPos1 + literalLen > inLen"
    using decodeChunk_literal_overrun [OF that(1,2)] that(3) by (simp add: uncompressLoop_Failed)
  moreover have "decodeChunk inBuf inLen inPos outPos outBuf = decodeChunk inBuf 0 inPos outPos outBuf"
    if "literalHeader inBuf inPos = Some (0, inPos1)"
  proof -
    from that obtain mixedLen where rb: "readByte inBuf inPos = Some mixedLen"
      and z: "unat (drop_bit 4 mixedLen) = 0"
      by (auto simp: literalHeader_def split: option.splits if_splits)
    show ?thesis
      by (simp add: decodeChunk_no_literals [OF rb z])
  qed
  ultimately show ?thesis by blast
qed

theorem uncompressLoop_truncation_checked_for_literals_only_witness:
  "literalHeader [0x66, 0x30, 0x01] 1 = Some (3, 2)
   \<and> uncompressLoop [0x66, 0x30, 0x01] 3 1 0 (replicate 8192 0xcc) = Inl BufferOverrunL
   \<and> literalHeader [0x66, 0x00, 0x10, 0x00, 0x0f, 0xfe] 1 = Some (0, 2)
   \<and> decodeChunk [0x66, 0x00, 0x10, 0x00, 0x0f, 0xfe] 3 1 0 (replicate 8192 0xcc)
       = decodeChunk [0x66, 0x00, 0x10, 0x00, 0x0f, 0xfe] 0 1 0 (replicate 8192 0xcc)"
proof -
  have h1: "literalHeader [0x66, 0x30, 0x01] 1 = Some (3, 2)"
    by (simp add: literalHeader_def readByte_def)
  have h2: "literalHeader [0x66, 0x00, 0x10, 0x00, 0x0f, 0xfe] 1 = Some (0, 2)"
    by (simp add: literalHeader_def readByte_def)
  from uncompressLoop_truncation_checked_for_literals_only
         [of "[0x66, 0x30, 0x01]" 1 3 2 3 0 "replicate 8192 0xcc"]
       uncompressLoop_truncation_checked_for_literals_only
         [of "[0x66, 0x00, 0x10, 0x00, 0x0f, 0xfe]" 1 0 2 3 0 "replicate 8192 0xcc"]
       h1 h2
  show ?thesis by simp
qed

subsection \<open>Nibbles and bytes\<close>

lemma nat_and_15: "(a::nat) AND 15 = a mod 16"
proof -
  have "(15::nat) = mask 4" by (simp add: mask_eq_exp_minus_1)
  then have "a AND 15 = take_bit 4 a" by (simp only: take_bit_eq_mask)
  then show ?thesis by (simp add: take_bit_eq_mod)
qed

lemma nat_and_255: "(a::nat) AND 255 = a mod 256"
proof -
  have "(255::nat) = mask 8" by (simp add: mask_eq_exp_minus_1)
  then have "a AND 255 = take_bit 8 a" by (simp only: take_bit_eq_mask)
  then show ?thesis by (simp add: take_bit_eq_mod)
qed

lemma nat_or_push_bit:
  assumes "a < 2 ^ n"
  shows "(a::nat) OR push_bit n b = a + b * 2 ^ n"
proof -
  have "a AND push_bit n b = 0"
  proof (rule bit_eqI)
    fix k
    have "take_bit n a = a" using assms by (simp add: take_bit_nat_eq_self)
    then have "bit a k \<longleftrightarrow> k < n \<and> bit a k" by (metis bit_take_bit_iff)
    then show "bit (a AND push_bit n b) k = bit (0::nat) k"
      by (auto simp: bit_simps)
  qed
  then have "a + push_bit n b = a OR push_bit n b" by (rule disjunctive_add_eq_or)
  then show ?thesis by (simp add: push_bit_eq_mult)
qed

lemma unat_byte: "n < 256 \<Longrightarrow> unat (of_nat n :: byte) = n"
  by (simp add: unat_of_nat)

lemma byte_nibbles:
  assumes "a \<le> 15" and "b \<le> 15"
  shows "unat ((of_nat a :: byte) OR of_nat (push_bit 4 b)) = a + b * 16"
proof -
  have "push_bit 4 b < 256" using assms by (simp add: push_bit_eq_mult)
  then have "unat ((of_nat a :: byte) OR of_nat (push_bit 4 b)) = a OR push_bit 4 b"
    using assms by (simp add: unsigned_or_eq unat_byte)
  also have "\<dots> = a + b * 2 ^ 4" using assms by (intro nat_or_push_bit) simp
  finally show ?thesis by simp
qed

lemma byte_hi_nibble: "unat (drop_bit 4 (w :: byte)) = unat w div 16"
proof -
  have "unat (drop_bit 4 w) = drop_bit 4 (unat w)" by (rule unat_drop_bit_eq)
  then show ?thesis by (simp only: drop_bit_eq_div) simp
qed

lemma byte_lo_nibble: "unat ((w :: byte) AND 0x0f) = unat w mod 16"
proof -
  have "unat (w AND 0x0f) = unat w AND unat (0x0f :: byte)" by (rule unsigned_and_eq)
  then show ?thesis by (simp add: nat_and_15)
qed

lemma byte_lo_nibble_int: "int (unat ((w :: byte) AND 0x0f)) = int (unat w mod 16)"
  by (simp only: byte_lo_nibble)

lemma offset_bytes:
  assumes "off < 65536"
  shows "unat (of_nat (off AND 0xff) :: byte)
           OR push_bit 8 (unat (of_nat (drop_bit 8 off AND 0xff) :: byte)) = off"
proof -
  have lo: "unat (of_nat (off AND 0xff) :: byte) = off mod 256"
    by (simp add: nat_and_255 unat_byte)
  have "off div 256 < 256" using assms by simp
  then have hi: "unat (of_nat (drop_bit 8 off AND 0xff) :: byte) = off div 256"
    by (simp add: nat_and_255 unat_byte drop_bit_eq_div)
  have "off mod 256 OR push_bit 8 (off div 256) = off mod 256 + (off div 256) * 2 ^ 8"
    by (intro nat_or_push_bit) simp
  then show ?thesis by (simp add: lo hi)
qed

subsection \<open>Decoding what the encoders emit\<close>

lemma cursor_read:
  assumes "drop ip S = x # r"
  shows "readByte S ip = Some x" and "drop (Suc ip) S = r" and "ip < length S"
proof -
  show lt: "ip < length S" using assms by (cases "ip < length S") auto
  from lt assms show "readByte S ip = Some x"
    by (simp add: readByte_def) (metis nth_via_drop)
  from assms show "drop (Suc ip) S = r"
    by (metis drop_Suc tl_drop list.sel(3))
qed

lemma cursor_take:
  assumes "drop ip S = xs @ r"
  shows "take (length xs) (drop ip S) = xs" and "drop (ip + length xs) S = r"
    and "xs \<noteq> [] \<Longrightarrow> ip + length xs \<le> length S"
proof -
  show "take (length xs) (drop ip S) = xs" using assms by simp
  show "drop (ip + length xs) S = r"
    using assms by (metis add.commute append_eq_conv_conj drop_drop)
  have "length (drop ip S) = length xs + length r" using assms by simp
  then show "ip + length xs \<le> length S" if "xs \<noteq> []" using that by (cases xs) auto
qed

lemma literalPhase_emitted:
  assumes m: "unat (drop_bit 4 mixedLen) = min nl 15"
    and cur: "drop ip S = (if nl \<ge> 15 then [of_nat (nl - 15)] else []) @ lits @ rest"
    and len: "length lits = nl" and nl: "nl \<le> 255"
    and out: "op + nl \<le> MAX_SIZE" "length ob = MAX_SIZE"
    and inLen: "ip + (if nl \<ge> 15 then 1 else 0) + nl \<le> inLen"
  shows "literalPhase S inLen mixedLen ip op ob
           = Inr (ip + (if nl \<ge> 15 then 1 else 0) + nl, op + nl,
                  take op ob @ lits @ drop (op + nl) ob)"
    and "drop (ip + (if nl \<ge> 15 then 1 else 0) + nl) S = rest"
proof -
  consider (zero) "nl = 0" | (short) "0 < nl" "nl < 15" | (long) "15 \<le> nl" by linarith
  then have "literalPhase S inLen mixedLen ip op ob
           = Inr (ip + (if nl \<ge> 15 then 1 else 0) + nl, op + nl,
                  take op ob @ lits @ drop (op + nl) ob)
        \<and> drop (ip + (if nl \<ge> 15 then 1 else 0) + nl) S = rest"
  proof cases
    case zero
    with m cur len show ?thesis by (simp add: literalPhase_def)
  next
    case short
    from short cur have c: "drop ip S = lits @ rest" by simp
    note t = cursor_take [OF c]
    from short len have "lits \<noteq> []" by auto
    with short m t len out inLen show ?thesis
      by (simp add: literalPhase_def Let_def)
  next
    case long
    from long cur have c: "drop ip S = of_nat (nl - 15) # (lits @ rest)" by simp
    note r = cursor_read [OF c]
    note t = cursor_take [OF r(2)]
    have e: "unat (of_nat (nl - 15) :: byte) = nl - 15" using nl by (simp add: unat_byte)
    from long len have "lits \<noteq> []" by auto
    with long m r t len out inLen e show ?thesis
      by (simp add: literalPhase_def Let_def)
  qed
  then show "literalPhase S inLen mixedLen ip op ob
           = Inr (ip + (if nl \<ge> 15 then 1 else 0) + nl, op + nl,
                  take op ob @ lits @ drop (op + nl) ob)"
    and "drop (ip + (if nl \<ge> 15 then 1 else 0) + nl) S = rest" by simp_all
qed

lemma matchLenPhase_emitted:
  assumes m: "unat (mixedLen AND 0x0f) = min adj 15"
    and cur: "drop ip S = (if adj \<ge> 15 then [of_nat (adj - 15)] else []) @ rest"
    and adj: "adj \<le> 251"
  shows "matchLenPhase S mixedLen ip = MatchLen (int adj) (ip + (if adj \<ge> 15 then 1 else 0))"
    and "drop (ip + (if adj \<ge> 15 then 1 else 0)) S = rest"
proof -
  have "matchLenPhase S mixedLen ip = MatchLen (int adj) (ip + (if adj \<ge> 15 then 1 else 0))
       \<and> drop (ip + (if adj \<ge> 15 then 1 else 0)) S = rest"
  proof (cases "adj \<ge> 15")
    case False
    with m cur show ?thesis by (simp add: matchLenPhase_def)
  next
    case True
    from True cur have c: "drop ip S = of_nat (adj - 15) # rest" by simp
    note r = cursor_read [OF c]
    have e: "unat (of_nat (adj - 15) :: byte) = adj - 15" using adj by (simp add: unat_byte)
    have "(of_nat (adj - 15) :: byte) \<noteq> 253" "(of_nat (adj - 15) :: byte) \<noteq> 254"
      using e adj by auto
    with True m r e show ?thesis by (simp add: matchLenPhase_def)
  qed
  then show "matchLenPhase S mixedLen ip = MatchLen (int adj) (ip + (if adj \<ge> 15 then 1 else 0))"
    and "drop (ip + (if adj \<ge> 15 then 1 else 0)) S = rest" by simp_all
qed

lemma matchLenPhase_token:
  assumes m: "unat (mixedLen AND 0x0f) = 15"
    and cur: "drop ip S = token # rest"
  shows "token = EMPTY_MATCH_TOKEN \<Longrightarrow> matchLenPhase S mixedLen ip = MatchLen (- 4) (ip + 1)"
    and "token = EOD_MATCH_TOKEN \<Longrightarrow> matchLenPhase S mixedLen ip = EndOfData (ip + 1)"
  using m cursor_read [OF cur] by (simp_all add: matchLenPhase_def)

lemma copyPhase_emitted:
  assumes cur: "drop ip S = [of_nat (off AND 0xff), of_nat (drop_bit 8 off AND 0xff)] @ rest"
    and off: "off < 65536"
    and out: "op + (adj + 4) \<le> MAX_SIZE" "off + (adj + 4) \<le> MAX_SIZE"
    and c: "copyMatch ob op off (adj + 4) = Some ob'"
  shows "copyPhase S (int adj) ip op ob = NextChunk (ip + 2) (op + (adj + 4)) ob'"
    and "drop (ip + 2) S = rest"
proof -
  from cur have c0: "drop ip S = of_nat (off AND 0xff) # (of_nat (drop_bit 8 off AND 0xff) # rest)"
    by simp
  note r0 = cursor_read [OF c0]
  note r1 = cursor_read [OF r0(2)]
  from r1(2) show "drop (ip + 2) S = rest" by simp
  have n: "nat (int adj + 4) = adj + 4" by simp
  from r0 r1 out c show "copyPhase S (int adj) ip op ob = NextChunk (ip + 2) (op + (adj + 4)) ob'"
    by (simp add: copyPhase_def Let_def offset_bytes [OF off] n del: of_nat_add)
qed

lemma copyPhase_no_match: "copyPhase S (- 4) ip op ob = NextChunk ip op ob"
  by (simp add: copyPhase_def)

lemma matchAt_Suc:
  "matchAt b p off (Suc L) \<longleftrightarrow> b ! off = b ! p \<and> matchAt b (Suc p) (Suc off) L"
proof
  assume a: "matchAt b p off (Suc L)"
  then have "b ! (off + 0) = b ! (p + 0)" unfolding matchAt_def by blast
  moreover have "b ! (Suc off + k) = b ! (Suc p + k)" if "k < L" for k
    using a that unfolding matchAt_def by (metis Suc_less_eq add_Suc_right add_Suc)
  ultimately show "b ! off = b ! p \<and> matchAt b (Suc p) (Suc off) L"
    unfolding matchAt_def by simp
next
  assume a: "b ! off = b ! p \<and> matchAt b (Suc p) (Suc off) L"
  show "matchAt b p off (Suc L)"
    unfolding matchAt_def
  proof (intro allI impI)
    fix k assume "k < Suc L"
    show "b ! (off + k) = b ! (p + k)"
    proof (cases k)
      case 0
      with a show ?thesis by simp
    next
      case (Suc k')
      with \<open>k < Suc L\<close> a show ?thesis unfolding matchAt_def by simp
    qed
  qed
qed

lemma copyMatch_correct:
  assumes "take p ob = take p b" and "off < p" and "matchAt b p off L"
    and "p + L \<le> length b" and "p + L \<le> length ob"
  shows "\<exists>ob'. copyMatch ob p off L = Some ob' \<and> take (p + L) ob' = take (p + L) b
               \<and> length ob' = length ob"
  using assms
proof (induction L arbitrary: ob p off)
  case 0
  then show ?case by simp
next
  case (Suc L)
  from Suc.prems have lt: "p < length b" "p < length ob" "off < length ob" by simp_all
  from Suc.prems(3) have eq: "b ! off = b ! p" and m: "matchAt b (Suc p) (Suc off) L"
    by (simp_all add: matchAt_Suc)
  have "ob ! off = take p ob ! off" using Suc.prems(2) by simp
  also have "\<dots> = b ! off" using Suc.prems(1,2) by simp
  finally have src: "ob ! off = b ! p" using eq by simp
  let ?ob1 = "ob[p := ob ! off]"
  have t: "take (Suc p) ?ob1 = take (Suc p) b"
    using lt Suc.prems(1) src by (simp add: take_Suc_conv_app_nth)
  have "\<exists>ob'. copyMatch ?ob1 (Suc p) (Suc off) L = Some ob'
          \<and> take (Suc p + L) ob' = take (Suc p + L) b \<and> length ob' = length ?ob1"
    using Suc.prems by (intro Suc.IH [OF t _ m]) simp_all
  with lt show ?case by simp
qed

lemma mixedLengthsOf_eq:
  "mixedLengthsOf adj nl = of_nat (min adj 15) OR of_nat (push_bit 4 (min nl 15))"
  by (simp add: mixedLengthsOf_def Let_def min_def)

lemma mixedLengthsOf_unat: "unat (mixedLengthsOf adj nl) = min adj 15 + min nl 15 * 16"
  unfolding mixedLengthsOf_eq by (rule byte_nibbles) simp_all

lemma mixedLengthsOf_hi: "unat (drop_bit 4 (mixedLengthsOf adj nl)) = min nl 15"
  unfolding byte_hi_nibble mixedLengthsOf_unat by simp

lemma mixedLengthsOf_lo: "unat (mixedLengthsOf adj nl AND 0x0f) = min adj 15"
  unfolding byte_lo_nibble mixedLengthsOf_unat by simp

lemma literalsMixed_unat:
  assumes "nl < 15"
  shows "unat (of_nat (push_bit 4 nl OR 0x0f) :: byte) = 15 + nl * 16"
proof -
  have "(15::nat) OR push_bit 4 nl = 15 + nl * 2 ^ 4" by (intro nat_or_push_bit) simp
  then have eq: "push_bit 4 nl OR 0x0f = 15 + nl * 16" by (simp add: or.commute)
  have "push_bit 4 nl OR 0x0f < 256" using assms unfolding eq by simp
  then have "unat (of_nat (push_bit 4 nl OR 0x0f) :: byte) = push_bit 4 nl OR 0x0f"
    by (rule unat_byte)
  then show ?thesis by (simp only: eq)
qed

definition literalsMixed :: "nat \<Rightarrow> byte" where
  "literalsMixed nl = (if nl < 15 then of_nat (push_bit 4 nl OR 0x0f) else 0xff)"

lemma literalsMixed_value: "unat (literalsMixed nl) = 15 + min nl 15 * 16"
proof (cases "nl < 15")
  case True
  then have "unat (literalsMixed nl) = 15 + nl * 16"
    by (simp only: literalsMixed_def if_True literalsMixed_unat)
  with True show ?thesis by simp
next
  case False
  then show ?thesis by (simp add: literalsMixed_def)
qed

lemma literalsMixed_hi: "unat (drop_bit 4 (literalsMixed nl)) = min nl 15"
  unfolding byte_hi_nibble literalsMixed_value by simp

lemma literalsMixed_lo: "unat (literalsMixed nl AND 0x0f) = 15"
  unfolding byte_lo_nibble literalsMixed_value by simp

lemma emitLiterals_eq:
  "emitLiterals b ls nl token =
     literalsMixed nl # ((if nl \<ge> 15 then [of_nat (nl - 15)] else [])
        @ take nl (drop ls b) @ [token])"
  by (simp add: emitLiterals_def literalsMixed_def)

lemma emitMatch_eq:
  "emitMatch b ls nl L off =
     mixedLengthsOf (L - 4) nl # ((if nl \<ge> 15 then [of_nat (nl - 15)] else [])
        @ take nl (drop ls b)
        @ ((if L - 4 \<ge> 15 then [of_nat (L - 4 - 15)] else [])
        @ ([of_nat (off AND 0xff), of_nat (drop_bit 8 off AND 0xff)])))"
  by (simp add: emitMatch_def Let_def)

lemma length_emitLiterals:
  "ls + nl \<le> length b \<Longrightarrow>
   length (emitLiterals b ls nl token) = 1 + (if nl \<ge> 15 then 1 else 0) + nl + 1"
  by (simp add: emitLiterals_eq)

lemma length_emitMatch:
  "ls + nl \<le> length b \<Longrightarrow>
   length (emitMatch b ls nl L off)
     = 1 + (if nl \<ge> 15 then 1 else 0) + nl + (if L - 4 \<ge> 15 then 1 else 0) + 2"
  by (simp add: emitMatch_eq)

lemma agree_literals:
  assumes "take op ob = take op b" and "op + nl \<le> length b" and "op + nl \<le> length ob"
  shows "take (op + nl) (take op ob @ take nl (drop op b) @ drop (op + nl) ob) = take (op + nl) b"
proof -
  have "take (op + nl) b = take op b @ take nl (drop op b)" by (simp add: take_add)
  with assms show ?thesis by simp
qed

lemma decodeChunk_literals_chunk:
  assumes cur: "drop ip S = emitLiterals b ls nl token @ rest"
    and lits: "ls + nl \<le> length b" and nl: "nl \<le> 255"
    and out: "op + nl \<le> MAX_SIZE" "length ob = MAX_SIZE"
    and inLen: "ip + length (emitLiterals b ls nl token) \<le> inLen"
  shows "token = EMPTY_MATCH_TOKEN \<Longrightarrow>
           decodeChunk S inLen ip op ob
             = NextChunk (ip + length (emitLiterals b ls nl token)) (op + nl)
                 (take op ob @ take nl (drop ls b) @ drop (op + nl) ob)"
    and "token = EOD_MATCH_TOKEN \<Longrightarrow>
           decodeChunk S inLen ip op ob
             = Finished (ip + length (emitLiterals b ls nl token)) (op + nl)
                 (take op ob @ take nl (drop ls b) @ drop (op + nl) ob)"
    and "drop (ip + length (emitLiterals b ls nl token)) S = rest"
proof -
  let ?ext = "(if nl \<ge> 15 then [of_nat (nl - 15)] else []) :: byte list"
  let ?lits = "take nl (drop ls b)"
  let ?e = "if nl \<ge> 15 then 1 else 0 :: nat"
  have ll: "length ?lits = nl" using lits by simp
  have len: "length (emitLiterals b ls nl token) = 1 + ?e + nl + 1"
    using lits by (simp add: length_emitLiterals)
  from cur have c0: "drop ip S = literalsMixed nl # (?ext @ ?lits @ (token # rest))"
    by (simp add: emitLiterals_eq)
  note r0 = cursor_read [OF c0]
  from r0(2) have c1: "drop (ip + 1) S = ?ext @ ?lits @ (token # rest)" by simp
  have i1: "ip + 1 + ?e + nl \<le> inLen" using inLen len by simp
  note lp = literalPhase_emitted [OF literalsMixed_hi c1 ll nl out i1]
  note tk = matchLenPhase_token [OF literalsMixed_lo lp(2)]
  note r2 = cursor_read [OF lp(2)]
  have pos: "ip + 1 + ?e + nl + 1 = ip + length (emitLiterals b ls nl token)"
    using len by simp
  show "decodeChunk S inLen ip op ob
             = NextChunk (ip + length (emitLiterals b ls nl token)) (op + nl)
                 (take op ob @ take nl (drop ls b) @ drop (op + nl) ob)"
    if "token = EMPTY_MATCH_TOKEN"
    unfolding decodeChunk_def
    by (simp only: r0(1) option.case lp(1) sum.case prod.case tk(1) [OF that] matchHeader.case
        copyPhase_no_match pos)
  show "decodeChunk S inLen ip op ob
             = Finished (ip + length (emitLiterals b ls nl token)) (op + nl)
                 (take op ob @ take nl (drop ls b) @ drop (op + nl) ob)"
    if "token = EOD_MATCH_TOKEN"
    unfolding decodeChunk_def
    by (simp only: r0(1) option.case lp(1) sum.case prod.case tk(2) [OF that] matchHeader.case pos)
  have "Suc (ip + 1 + ?e + nl) = ip + length (emitLiterals b ls nl token)"
    using len by simp
  with r2(2) show "drop (ip + length (emitLiterals b ls nl token)) S = rest"
    by (simp only:)
qed

lemma decodeChunk_match_chunk:
  assumes cur: "drop ip S = emitMatch b ls nl L off @ rest"
    and lits: "ls + nl \<le> length b" and nl: "nl \<le> 255"
    and L: "4 \<le> L" "L \<le> 255" and off: "off < 65536"
    and out: "op + nl + L \<le> MAX_SIZE" "off + L \<le> MAX_SIZE" "length ob = MAX_SIZE"
    and inLen: "ip + length (emitMatch b ls nl L off) \<le> inLen"
    and c: "copyMatch (take op ob @ take nl (drop ls b) @ drop (op + nl) ob) (op + nl) off L
              = Some ob'"
  shows "decodeChunk S inLen ip op ob
           = NextChunk (ip + length (emitMatch b ls nl L off)) (op + nl + L) ob'"
    and "drop (ip + length (emitMatch b ls nl L off)) S = rest"
proof -
  let ?ext = "(if nl \<ge> 15 then [of_nat (nl - 15)] else []) :: byte list"
  let ?lits = "take nl (drop ls b)"
  let ?e = "if nl \<ge> 15 then 1 else 0 :: nat"
  let ?adj = "L - 4"
  let ?mext = "(if ?adj \<ge> 15 then [of_nat (?adj - 15)] else []) :: byte list"
  let ?me = "if ?adj \<ge> 15 then 1 else 0 :: nat"
  let ?offs = "[of_nat (off AND 0xff), of_nat (drop_bit 8 off AND 0xff)] :: byte list"
  have ll: "length ?lits = nl" using lits by simp
  have len: "length (emitMatch b ls nl L off) = 1 + ?e + nl + ?me + 2"
    using lits by (simp add: length_emitMatch)
  from cur have c0: "drop ip S = mixedLengthsOf ?adj nl # (?ext @ ?lits @ (?mext @ (?offs @ rest)))"
    by (simp add: emitMatch_eq)
  note r0 = cursor_read [OF c0]
  from r0(2) have c1: "drop (ip + 1) S = ?ext @ ?lits @ (?mext @ (?offs @ rest))" by simp
  have i1: "ip + 1 + ?e + nl \<le> inLen" using inLen len by simp
  have o1: "op + nl \<le> MAX_SIZE" using out by simp
  note lp = literalPhase_emitted [OF mixedLengthsOf_hi c1 ll nl o1 out(3) i1]
  have adj: "?adj \<le> 251" using L by simp
  note mp = matchLenPhase_emitted [OF mixedLengthsOf_lo lp(2) adj]
  have a4: "?adj + 4 = L" using L by simp
  have o2: "op + nl + (?adj + 4) \<le> MAX_SIZE" "off + (?adj + 4) \<le> MAX_SIZE"
    using out a4 by simp_all
  have c': "copyMatch (take op ob @ ?lits @ drop (op + nl) ob) (op + nl) off (?adj + 4) = Some ob'"
    using c a4 by simp
  note cp = copyPhase_emitted [OF mp(2) off o2 c']
  have pos: "ip + 1 + ?e + nl + ?me + 2 = ip + length (emitMatch b ls nl L off)"
    using len by simp
  show "decodeChunk S inLen ip op ob
           = NextChunk (ip + length (emitMatch b ls nl L off)) (op + nl + L) ob'"
    unfolding decodeChunk_def
    by (simp only: r0(1) option.case lp(1) sum.case prod.case mp(1) matchHeader.case cp(1) pos a4)
  from cp(2) show "drop (ip + length (emitMatch b ls nl L off)) S = rest"
    by (simp only: pos)
qed

subsection \<open>The greedy encoder: round trip\<close>

declare greedyLoop.simps [simp del]

lemma greedy_flush_eq:
  "[0xff, of_nat (MAX_LITERAL_LEN - INITIAL_LEN)] @ take 255 (drop ls b) @ [EMPTY_MATCH_TOKEN]
     = emitLiterals b ls 255 EMPTY_MATCH_TOKEN"
  by (simp add: emitLiterals_def)

lemma greedyLoop_unfold:
  "greedyLoop b p ls nl out =
     (if p < length b then
        (if \<not> length out < 8292 then Inl AssertionFailed
         else if fst (findLongestMatch b p) < 4 then
           greedyLoop b (Suc p) (if nl = 255 \<or> nl = 0 then p else ls)
             (Suc (if nl = 255 then 0 else nl))
             (if nl = 255 then out @ emitLiterals b ls 255 EMPTY_MATCH_TOKEN else out)
         else greedyLoop b (p + fst (findLongestMatch b p)) 0 0
                (out @ emitMatch b ls nl (fst (findLongestMatch b p)) (snd (findLongestMatch b p))))
      else Inr (ls, nl, out))"
  by (subst greedyLoop.simps)
    (auto simp: Let_def emitLiterals_def split: prod.splits)

lemma greedyLoop_prefix:
  "greedyLoop b p ls nl out = Inr (ls', nl', out') \<Longrightarrow> \<exists>mid. out' = out @ mid"
proof (induction "length b - p" arbitrary: p ls nl out rule: less_induct)
  case less
  show ?case
  proof (cases "p < length b")
    case False
    with less.prems show ?thesis by (simp add: greedyLoop_unfold [of b p])
  next
    case True
    let ?L = "fst (findLongestMatch b p)"
    from True less.prems have a: "length out < 8292"
      by (auto simp: greedyLoop_unfold [of b p] split: if_splits)
    show ?thesis
    proof (cases "?L < 4")
      case lit: True
      with True a less.prems have run:
        "greedyLoop b (Suc p) (if nl = 255 \<or> nl = 0 then p else ls)
             (Suc (if nl = 255 then 0 else nl))
             (if nl = 255 then out @ emitLiterals b ls 255 EMPTY_MATCH_TOKEN else out)
         = Inr (ls', nl', out')"
        by (simp add: greedyLoop_unfold [of b p])
      have "length b - Suc p < length b - p" using True by simp
      from less.hyps [OF this run] show ?thesis by (auto split: if_splits)
    next
      case mat: False
      with True a less.prems have run:
        "greedyLoop b (p + ?L) 0 0
                (out @ emitMatch b ls nl ?L (snd (findLongestMatch b p))) = Inr (ls', nl', out')"
        by (simp add: greedyLoop_unfold [of b p])
      have "length b - (p + ?L) < length b - p" using True mat by simp
      from less.hyps [OF this run] show ?thesis by auto
    qed
  qed
qed

lemma findLongestMatch_match:
  assumes "4 \<le> fst (findLongestMatch b p)"
  shows "snd (findLongestMatch b p) < p"
    and "matchAt b p (snd (findLongestMatch b p)) (fst (findLongestMatch b p))"
    and "fst (findLongestMatch b p) \<le> 255"
    and "p + fst (findLongestMatch b p) \<le> length b"
proof -
  obtain len off where f: "findLongestMatch b p = (len, off)" by (cases "findLongestMatch b p")
  note spec = findLongestMatch_spec [OF f]
  from assms f have pos: "0 < len" by simp
  from spec(3) [OF pos] f show "snd (findLongestMatch b p) < p" by simp
  from spec(3) [OF pos] matchAt_getMatchLen [of b p off "maxLenAt b p"] f
  show "matchAt b p (snd (findLongestMatch b p)) (fst (findLongestMatch b p))" by simp
  from spec(1) f show "fst (findLongestMatch b p) \<le> 255" by (simp add: maxLenAt_def)
  from spec(1) f pos show "p + fst (findLongestMatch b p) \<le> length b"
    by (simp add: maxLenAt_def) linarith
qed

lemma greedyLoop_decodes:
  assumes "greedyLoop b p ls nl out = Inr (ls', nl', out')"
    and "S = out' @ emitLiterals b ls' nl' EOD_MATCH_TOKEN @ junk"
    and "inLen = length out' + length (emitLiterals b ls' nl' EOD_MATCH_TOKEN)"
    and "nl \<le> p" and "p \<le> length b" and "nl \<le> 255" and "nl = 0 \<or> ls + nl = p"
    and "length b \<le> MAX_SIZE"
    and "length ob = MAX_SIZE" and "take (p - nl) ob = take (p - nl) b"
  shows "\<exists>ob'. uncompressLoop S inLen (length out) (p - nl) ob = Inr (inLen, length b, ob')
               \<and> take (length b) ob' = b \<and> length ob' = MAX_SIZE"
  using assms
proof (induction "length b - p" arbitrary: p ls nl out ob rule: less_induct)
  case less
  note run = less.prems(1) and S = less.prems(2) and inLen = less.prems(3)
    and inv = less.prems(4-8) and ob = less.prems(9,10)
  from greedyLoop_prefix [OF run] obtain mid where mid: "out' = out @ mid" by blast
  let ?fin = "emitLiterals b ls' nl' EOD_MATCH_TOKEN"
  have lits_eq: "take nl (drop ls b) = take nl (drop (p - nl) b)"
    using inv(4) by (cases "nl = 0") auto
  show ?case
  proof (cases "p < length b")
    case False
    with inv have p: "p = length b" by simp
    from False run have e: "ls' = ls" "nl' = nl" "out' = out"
      by (simp_all add: greedyLoop_unfold [of b p])
    have cur: "drop (length out) S = emitLiterals b (p - nl) nl EOD_MATCH_TOKEN @ junk"
      using S e lits_eq by (simp add: emitLiterals_eq)
    have l1: "(p - nl) + nl \<le> length b" using inv by simp
    have o1: "(p - nl) + nl \<le> MAX_SIZE" using inv by simp
    have fin_eq: "emitLiterals b (p - nl) nl EOD_MATCH_TOKEN = ?fin"
      using e lits_eq by (simp add: emitLiterals_eq)
    have i1: "length out + length (emitLiterals b (p - nl) nl EOD_MATCH_TOKEN) \<le> inLen"
      using inLen e fin_eq by simp
    from decodeChunk_literals_chunk(2) [OF cur l1 inv(3) o1 ob(1) i1 refl]
    have d: "decodeChunk S inLen (length out) (p - nl) ob
             = Finished inLen (length b)
                 (take (p - nl) ob @ take nl (drop (p - nl) b) @ drop (p - nl + nl) ob)"
      using inLen e fin_eq p inv(1) by simp
    let ?obF = "take (p - nl) ob @ take nl (drop (p - nl) b) @ drop (p - nl + nl) ob"
    have "take (p - nl + nl) ?obF = take (p - nl + nl) b"
      using ob o1 l1 by (intro agree_literals) simp_all
    then have tF: "take (length b) ?obF = b" using p inv(1) by simp
    have lenF: "length ?obF = MAX_SIZE" using ob(1) o1 l1 by simp
    from uncompressLoop_Finished [OF d] tF lenF show ?thesis by blast
  next
    case True
    let ?L = "fst (findLongestMatch b p)"
    let ?off = "snd (findLongestMatch b p)"
    from True run have a: "length out < 8292"
      by (auto simp: greedyLoop_unfold [of b p] split: if_splits)
    show ?thesis
    proof (cases "?L < 4")
      case lit: True
      let ?ls1 = "if nl = 255 \<or> nl = 0 then p else ls"
      let ?nl1 = "Suc (if nl = 255 then 0 else nl)"
      let ?out1 = "if nl = 255 then out @ emitLiterals b ls 255 EMPTY_MATCH_TOKEN else out"
      from lit True a run have run1: "greedyLoop b (Suc p) ?ls1 ?nl1 ?out1 = Inr (ls', nl', out')"
        by (simp add: greedyLoop_unfold [of b p])
      have m: "length b - Suc p < length b - p" using True by simp
      have inv1: "?nl1 \<le> Suc p" "Suc p \<le> length b" "?nl1 \<le> 255" "?nl1 = 0 \<or> ?ls1 + ?nl1 = Suc p"
        using inv True by auto
      show ?thesis
      proof (cases "nl = 255")
        case False
        have "take (Suc p - ?nl1) ob = take (Suc p - ?nl1) b" using ob(2) False by simp
        from less.hyps [OF m run1 S inLen inv1 inv(5) ob(1) this] False
        show ?thesis by simp
      next
        case flush: True
        let ?c = "emitLiterals b ls 255 EMPTY_MATCH_TOKEN"
        from greedyLoop_prefix [OF run1] flush obtain mid1 where
          mid1: "out' = (out @ ?c) @ mid1" by auto
        have ls: "ls = p - 255" "255 \<le> p" using inv flush by auto
        have cur: "drop (length out) S = ?c @ (mid1 @ ?fin @ junk)"
          using S mid1 by simp
        have l1: "ls + 255 \<le> length b" using ls inv by simp
        have o1: "(p - 255) + 255 \<le> MAX_SIZE" using ls inv by simp
        have i1: "length out + length ?c \<le> inLen" using inLen mid1 by simp
        from decodeChunk_literals_chunk(1) [OF cur l1 _ o1 ob(1) i1 refl]
        have d: "decodeChunk S inLen (length out) (p - 255) ob
             = NextChunk (length out + length ?c) p
                 (take (p - 255) ob @ take 255 (drop (p - 255) b) @ drop (p - 255 + 255) ob)"
          using ls by simp
        let ?ob1 = "take (p - 255) ob @ take 255 (drop (p - 255) b) @ drop (p - 255 + 255) ob"
        have "take (p - 255 + 255) ?ob1 = take (p - 255 + 255) b"
          using ob flush o1 l1 ls by (intro agree_literals) simp_all
        then have t1: "take (Suc p - ?nl1) ?ob1 = take (Suc p - ?nl1) b" using flush ls by simp
        have len1: "length ?ob1 = MAX_SIZE" using ob(1) o1 l1 ls by simp
        from less.hyps [OF m run1 S inLen inv1 inv(5) len1 t1] flush
        have "\<exists>ob'. uncompressLoop S inLen (length (out @ ?c)) p ?ob1 = Inr (inLen, length b, ob')
               \<and> take (length b) ob' = b \<and> length ob' = MAX_SIZE" by simp
        with flush show ?thesis by (simp add: uncompressLoop_NextChunk [OF d])
      qed
    next
      case mat: False
      then have L4: "4 \<le> ?L" by simp
      note fm = findLongestMatch_match [OF L4]
      let ?c = "emitMatch b ls nl ?L ?off"
      from mat True a run have run1: "greedyLoop b (p + ?L) 0 0 (out @ ?c) = Inr (ls', nl', out')"
        by (simp add: greedyLoop_unfold [of b p])
      from greedyLoop_prefix [OF run1] obtain mid1 where mid1: "out' = (out @ ?c) @ mid1" by auto
      have m: "length b - (p + ?L) < length b - p" using True L4 by simp
      have c_eq: "?c = emitMatch b (p - nl) nl ?L ?off" using lits_eq by (simp add: emitMatch_eq)
      have cur: "drop (length out) S = emitMatch b (p - nl) nl ?L ?off @ (mid1 @ ?fin @ junk)"
        using S mid1 c_eq by simp
      have l1: "(p - nl) + nl \<le> length b" using inv by simp
      have offb: "?off < 65536" using fm(1) inv by simp
      have o1: "(p - nl) + nl + ?L \<le> MAX_SIZE" "?off + ?L \<le> MAX_SIZE" using fm inv by simp_all
      have i1: "length out + length (emitMatch b (p - nl) nl ?L ?off) \<le> inLen"
        using inLen mid1 c_eq by simp
      let ?ob1 = "take (p - nl) ob @ take nl (drop (p - nl) b) @ drop (p - nl + nl) ob"
      have t1: "take p ?ob1 = take p b"
        using agree_literals [OF ob(2), of nl] ob(1) inv l1 by simp
      have len1: "length ?ob1 = MAX_SIZE" using ob(1) inv by simp
      have pl: "p + ?L \<le> length ?ob1" unfolding len1 using fm(4) inv(5) by simp
      from copyMatch_correct [OF t1 fm(1,2) fm(4) pl] len1
      obtain ob2 where c2: "copyMatch ?ob1 p ?off ?L = Some ob2"
        and t2: "take (p + ?L) ob2 = take (p + ?L) b" and len2: "length ob2 = MAX_SIZE"
        by auto
      from c2 inv have c2': "copyMatch ?ob1 (p - nl + nl) ?off ?L = Some ob2" by simp
      from decodeChunk_match_chunk(1) [OF cur l1 inv(3) L4 fm(3) offb o1 ob(1) i1 c2']
      have d: "decodeChunk S inLen (length out) (p - nl) ob
                 = NextChunk (length (out @ ?c)) (p + ?L) ob2"
        using inv c_eq by simp
      have inv1: "(0::nat) \<le> p + ?L" "p + ?L \<le> length b" "(0::nat) \<le> 255" "(0::nat) = 0 \<or> 0 + 0 = p + ?L"
        using fm by simp_all
      from less.hyps [OF m run1 S inLen inv1 inv(5) len2] t2
      have "\<exists>ob'. uncompressLoop S inLen (length (out @ ?c)) (p + ?L) ob2 = Inr (inLen, length b, ob')
               \<and> take (length b) ob' = b \<and> length ob' = MAX_SIZE" by simp
      then show ?thesis by (simp only: uncompressLoop_NextChunk [OF d])
    qed
  qed
qed

subsection \<open>The greedy encoder: size of the output\<close>

lemma emitMatch_cost:
  assumes "ls + nl \<le> length b" and "4 \<le> L"
  shows "255 * length (emitMatch b ls nl L off) \<le> 258 * (nl + L)"
  using assms by (auto simp: length_emitMatch)

lemma greedyLoop_bound:
  assumes "nl \<le> p" and "p \<le> length b" and "nl \<le> 255" and "nl = 0 \<or> ls + nl = p"
    and "length b \<le> MAX_SIZE"
    and "255 * length out \<le> 255 + 258 * (p - nl)"
  shows "\<exists>ls' nl' out'. greedyLoop b p ls nl out = Inr (ls', nl', out')
           \<and> 255 * length out' \<le> 255 + 258 * (length b - nl')
           \<and> nl' \<le> 255 \<and> nl' \<le> length b \<and> (nl' = 0 \<or> ls' + nl' = length b)"
  using assms
proof (induction "length b - p" arbitrary: p ls nl out rule: less_induct)
  case less
  note inv = less.prems(1-5) and sz = less.prems(6)
  show ?case
  proof (cases "p < length b")
    case False
    with inv have p: "p = length b" by simp
    have "greedyLoop b p ls nl out = Inr (ls, nl, out)"
      using False by (simp add: greedyLoop_unfold [of b p])
    with inv sz p show ?thesis by auto
  next
    case True
    let ?L = "fst (findLongestMatch b p)"
    let ?off = "snd (findLongestMatch b p)"
    have "255 * length out \<le> 255 + 258 * 8191" using sz True inv by simp
    then have a: "length out < 8292" by simp
    show ?thesis
    proof (cases "?L < 4")
      case lit: True
      let ?ls1 = "if nl = 255 \<or> nl = 0 then p else ls"
      let ?nl1 = "Suc (if nl = 255 then 0 else nl)"
      let ?out1 = "if nl = 255 then out @ emitLiterals b ls 255 EMPTY_MATCH_TOKEN else out"
      have step: "greedyLoop b p ls nl out = greedyLoop b (Suc p) ?ls1 ?nl1 ?out1"
        using lit True a by (simp add: greedyLoop_unfold [of b p])
      have m: "length b - Suc p < length b - p" using True by simp
      have inv1: "?nl1 \<le> Suc p" "Suc p \<le> length b" "?nl1 \<le> 255" "?nl1 = 0 \<or> ?ls1 + ?nl1 = Suc p"
        using inv True by auto
      have sz1: "255 * length ?out1 \<le> 255 + 258 * (Suc p - ?nl1)"
      proof (cases "nl = 255")
        case False
        with sz show ?thesis by simp
      next
        case flush: True
        with inv have "ls + 255 \<le> length b" "255 \<le> p" by auto
        with flush sz show ?thesis by (simp add: length_emitLiterals)
      qed
      from less.hyps [OF m inv1 inv(5) sz1] show ?thesis unfolding step .
    next
      case mat: False
      then have L4: "4 \<le> ?L" by simp
      note fm = findLongestMatch_match [OF L4]
      let ?c = "emitMatch b ls nl ?L ?off"
      have step: "greedyLoop b p ls nl out = greedyLoop b (p + ?L) 0 0 (out @ ?c)"
        using mat True a by (simp add: greedyLoop_unfold [of b p])
      have m: "length b - (p + ?L) < length b - p" using True L4 by simp
      have inv1: "(0::nat) \<le> p + ?L" "p + ?L \<le> length b" "(0::nat) \<le> 255"
        "(0::nat) = 0 \<or> 0 + 0 = p + ?L"
        using fm by simp_all
      have "255 * length ?c \<le> 258 * (nl + ?L)"
      proof (cases "nl = 0")
        case True
        then show ?thesis using L4 by (simp add: emitMatch_eq)
      next
        case False
        with inv have "ls + nl \<le> length b" by auto
        then show ?thesis using L4 by (rule emitMatch_cost)
      qed
      with sz inv have sz1: "255 * length (out @ ?c) \<le> 255 + 258 * (p + ?L - 0)" by simp
      from less.hyps [OF m inv1 inv(5) sz1] show ?thesis unfolding step .
    qed
  qed
qed

lemma compressBufferGreedily_sound:
  assumes "length b \<le> MAX_SIZE"
  shows "\<exists>out. compressBufferGreedily b = Inr out
           \<and> length out \<le> length b + MAX_EXPANSION
           \<and> (\<forall>junk ob. length ob = MAX_SIZE \<longrightarrow>
                (\<exists>ob'. uncompressBuffer ob (out @ junk) (length out)
                         = Inr (length b, ob', length out)
                      \<and> take (length b) ob' = b))"
proof -
  have z: "(0::nat) \<le> 0" "(0::nat) \<le> length b" "(0::nat) \<le> 255" "(0::nat) = 0 \<or> 0 + 0 = (0::nat)"
    by simp_all
  have s0: "255 * length [LZ4FH_MAGIC] \<le> 255 + 258 * (0 - 0)" by simp
  from greedyLoop_bound [OF z assms s0] obtain ls' nl' out' where
    run: "greedyLoop b 0 0 0 [LZ4FH_MAGIC] = Inr (ls', nl', out')"
    and sz: "255 * length out' \<le> 255 + 258 * (length b - nl')"
    and nl': "nl' \<le> 255" "nl' \<le> length b" "nl' = 0 \<or> ls' + nl' = length b"
    by blast
  let ?fin = "emitLiterals b ls' nl' EOD_MATCH_TOKEN"
  let ?out = "out' @ ?fin"
  have res: "compressBufferGreedily b = Inr ?out"
    by (simp add: compressBufferGreedily_def run)
  have "length ?fin \<le> nl' + 3" by (auto simp: emitLiterals_eq)
  with sz nl' have "255 * length ?out \<le> 1020 + 258 * length b" by simp
  with assms have bound: "length ?out \<le> length b + 100" by simp
  have dec: "\<exists>ob'. uncompressBuffer ob (?out @ junk) (length ?out)
                         = Inr (length b, ob', length ?out)
                      \<and> take (length b) ob' = b"
    if ob: "length ob = MAX_SIZE" for junk ob
  proof -
    have S: "?out @ junk = out' @ ?fin @ junk" by simp
    have t0: "take (0 - 0) ob = take (0 - 0) b" by simp
    from greedyLoop_decodes [OF run S _ z assms ob t0]
    obtain ob' where u: "uncompressLoop (?out @ junk) (length ?out) (length [LZ4FH_MAGIC]) (0 - 0) ob
                       = Inr (length ?out, length b, ob')"
      and t: "take (length b) ob' = b" by auto
    from greedyLoop_prefix [OF run] obtain mid where "out' = [LZ4FH_MAGIC] @ mid" by blast
    then have "readByte (?out @ junk) 0 = Some LZ4FH_MAGIC" by (simp add: readByte_def)
    with u have "uncompressBuffer ob (?out @ junk) (length ?out) = Inr (length b, ob', length ?out)"
      by (simp add: uncompressBuffer_def)
    with t show ?thesis by blast
  qed
  from res bound dec show ?thesis by blast
qed

subsection \<open>The optimal encoder: pass 1\<close>

text \<open>
  The literal path of one iteration, read off \<open>optStep\<close>: the run length stored in
  \<^verbatim>\<open>optList[i].literalLength\<close> and \<^verbatim>\<open>costForLiteral\<close>.
\<close>

definition litLen :: "byte list \<Rightarrow> OptNode list \<Rightarrow> nat \<Rightarrow> nat" where
  "litLen b tbl i =
     (if i = length b - 1 then 1
      else if matchLength (tbl ! (i + 1)) \<noteq> 0 then 1
      else if literalLength (tbl ! (i + 1)) = 255 then 1
      else literalLength (tbl ! (i + 1)) + 1)"

definition litCost :: "byte list \<Rightarrow> OptNode list \<Rightarrow> nat \<Rightarrow> nat" where
  "litCost b tbl i =
     (if i = length b - 1 then 2
      else (if matchLength (tbl ! (i + 1)) \<noteq> 0 then 1
            else if literalLength (tbl ! (i + 1)) = 255 then 3
            else if literalLength (tbl ! (i + 1)) + 1 = 15 then 2
            else 1)
           + totalCost (tbl ! (i + 1)))"

definition matchCost :: "byte list \<Rightarrow> OptNode list \<Rightarrow> nat \<Rightarrow> nat" where
  "matchCost b tbl i =
     (if fst (findLongestMatch b i) < 4 then 16384
      else totalCost (tbl ! (i + fst (findLongestMatch b i))) + 3
           + (if fst (findLongestMatch b i) \<ge> 15 then 1 else 0))"

lemma optStep_unfold:
  "optStep b i tbl =
     (if litCost b tbl i > matchCost b tbl i then
        (if fst (findLongestMatch b i) = 0 then Inl AssertionFailed
         else Inr (tbl[i := \<lparr>totalCost = matchCost b tbl i,
                      matchLength = (if fst (findLongestMatch b i) < 4 then matchLength (tbl ! i)
                                     else fst (findLongestMatch b i)),
                      matchOffset = (if fst (findLongestMatch b i) < 4 then matchOffset (tbl ! i)
                                     else snd (findLongestMatch b i)),
                      literalLength = litLen b tbl i\<rparr>]))
      else Inr (tbl[i := \<lparr>totalCost = litCost b tbl i,
                      matchLength = 0,
                      matchOffset = (if fst (findLongestMatch b i) < 4 then matchOffset (tbl ! i)
                                     else snd (findLongestMatch b i)),
                      literalLength = litLen b tbl i\<rparr>]))"
  by (cases "tbl ! i")
    (auto simp: optStep_def Let_def litLen_def litCost_def matchCost_def split: prod.splits)

text \<open>
  What pass 1 establishes for the node at \<open>j\<close>. A node with \<open>matchLength \<noteq> 0\<close> holds the
  longest match at \<open>j\<close>. A node with \<open>matchLength = 0\<close> starts a literal run of
  \<open>literalLength\<close> bytes (1 to 255) that stays inside the buffer, and a literal node right
  after that run starts a run of 255. The inequalities on \<open>totalCost\<close> bound it by the
  worst case of three bytes of overhead per 255 literals.
\<close>

definition nodeOk :: "byte list \<Rightarrow> OptNode list \<Rightarrow> nat \<Rightarrow> bool" where
  "nodeOk b tbl j =
     (if matchLength (tbl ! j) \<noteq> 0 then
        matchLength (tbl ! j) = fst (findLongestMatch b j)
        \<and> matchOffset (tbl ! j) = snd (findLongestMatch b j)
        \<and> 4 \<le> matchLength (tbl ! j)
        \<and> 255 * totalCost (tbl ! j) \<le> 258 * (length b - j) + 255
      else
        1 \<le> literalLength (tbl ! j) \<and> literalLength (tbl ! j) \<le> 255
        \<and> j + literalLength (tbl ! j) \<le> length b
        \<and> (j + literalLength (tbl ! j) < length b
             \<and> matchLength (tbl ! (j + literalLength (tbl ! j))) = 0
             \<longrightarrow> literalLength (tbl ! (j + literalLength (tbl ! j))) = 255)
        \<and> 255 * totalCost (tbl ! j) + 3 * literalLength (tbl ! j)
             \<le> 258 * (length b - j) + 255 + (if 15 \<le> literalLength (tbl ! j) then 255 else 0))"

definition tableOk :: "byte list \<Rightarrow> OptNode list \<Rightarrow> nat \<Rightarrow> bool" where
  "tableOk b tbl i =
     (length tbl = length b + 1 \<and> totalCost (tbl ! length b) = 0
      \<and> (\<forall>j. i \<le> j \<and> j < length b \<longrightarrow> nodeOk b tbl j))"

lemma nodeOk_cost:
  assumes "nodeOk b tbl j"
  shows "255 * totalCost (tbl ! j) \<le> 258 * (length b - j) + 465"
proof (cases "matchLength (tbl ! j) \<noteq> 0")
  case True
  with assms show ?thesis by (simp add: nodeOk_def)
next
  case False
  with assms have "255 * totalCost (tbl ! j) + 3 * literalLength (tbl ! j)
           \<le> 258 * (length b - j) + 255 + (if 15 \<le> literalLength (tbl ! j) then 255 else 0)"
    by (simp add: nodeOk_def)
  then show ?thesis by (auto split: if_splits)
qed

lemma tableOk_cost:
  assumes "tableOk b tbl i" and "i \<le> j" and "j \<le> length b"
  shows "255 * totalCost (tbl ! j) \<le> 258 * (length b - j) + 465"
proof (cases "j = length b")
  case True
  with assms show ?thesis by (simp add: tableOk_def)
next
  case False
  with assms have "nodeOk b tbl j" by (simp add: tableOk_def)
  then show ?thesis by (rule nodeOk_cost)
qed

lemma nodeOk_update_below:
  "i < j \<Longrightarrow> nodeOk b (tbl[i := n]) j = nodeOk b tbl j"
  by (simp add: nodeOk_def)

lemma litCost_bound:
  assumes t: "tableOk b tbl (Suc i)" and i: "i < length b"
  shows "255 * litCost b tbl i + 3 * litLen b tbl i
           \<le> 258 * (length b - i) + 255 + (if 15 \<le> litLen b tbl i then 255 else 0)"
proof (cases "i = length b - 1")
  case True
  with i show ?thesis by (simp add: litCost_def litLen_def)
next
  case False
  with i have i1: "Suc i < length b" by simp
  with t have ok: "nodeOk b tbl (Suc i)" by (simp add: tableOk_def)
  have d: "length b - i = Suc (length b - Suc i)" using i by simp
  show ?thesis
  proof (cases "matchLength (tbl ! Suc i) \<noteq> 0")
    case True
    with ok have "255 * totalCost (tbl ! Suc i) \<le> 258 * (length b - Suc i) + 255"
      by (simp add: nodeOk_def)
    with True False show ?thesis by (simp add: litCost_def litLen_def d)
  next
    case lit: False
    with ok have c: "255 * totalCost (tbl ! Suc i) + 3 * literalLength (tbl ! Suc i)
           \<le> 258 * (length b - Suc i) + 255
               + (if 15 \<le> literalLength (tbl ! Suc i) then 255 else 0)"
      by (simp add: nodeOk_def)
    show ?thesis
    proof (cases "literalLength (tbl ! Suc i) = 255")
      case True
      with c lit False show ?thesis by (simp add: litCost_def litLen_def d)
    next
      case n255: False
      show ?thesis
      proof (cases "literalLength (tbl ! Suc i) + 1 = 15")
        case True
        with c lit False n255 show ?thesis by (simp add: litCost_def litLen_def d)
      next
        case False
        with c lit \<open>i \<noteq> length b - 1\<close> n255 show ?thesis
          by (auto simp: litCost_def litLen_def d split: if_splits)
      qed
    qed
  qed
qed

lemma litLen_ok:
  assumes t: "tableOk b tbl (Suc i)" and i: "i < length b"
  shows "1 \<le> litLen b tbl i \<and> litLen b tbl i \<le> 255 \<and> i + litLen b tbl i \<le> length b
       \<and> (i + litLen b tbl i < length b \<and> matchLength (tbl ! (i + litLen b tbl i)) = 0
            \<longrightarrow> literalLength (tbl ! (i + litLen b tbl i)) = 255)"
proof (cases "i = length b - 1")
  case True
  with i have "litLen b tbl i = 1" "i + 1 = length b" by (simp_all add: litLen_def)
  then show ?thesis by simp
next
  case False
  with i have i1: "Suc i < length b" by simp
  with t have ok: "nodeOk b tbl (Suc i)" by (simp add: tableOk_def)
  show ?thesis
  proof (cases "matchLength (tbl ! Suc i) \<noteq> 0 \<or> literalLength (tbl ! Suc i) = 255")
    case True
    with False i1 show ?thesis by (auto simp: litLen_def)
  next
    case join: False
    with False have l: "litLen b tbl i = literalLength (tbl ! Suc i) + 1"
      by (simp add: litLen_def)
    from join ok have "1 \<le> literalLength (tbl ! Suc i)" "literalLength (tbl ! Suc i) \<le> 255"
      "Suc i + literalLength (tbl ! Suc i) \<le> length b"
      "Suc i + literalLength (tbl ! Suc i) < length b
             \<and> matchLength (tbl ! (Suc i + literalLength (tbl ! Suc i))) = 0
             \<longrightarrow> literalLength (tbl ! (Suc i + literalLength (tbl ! Suc i))) = 255"
      by (simp_all add: nodeOk_def)
    with join l show ?thesis by auto
  qed
qed

lemma optStep_ok:
  assumes t: "tableOk b tbl (Suc i)" and i: "i < length b" and N: "length b \<le> MAX_SIZE"
  shows "\<exists>tbl'. optStep b i tbl = Inr tbl' \<and> tableOk b tbl' i"
proof -
  let ?L = "fst (findLongestMatch b i)"
  let ?cl = "litCost b tbl i" and ?cm = "matchCost b tbl i" and ?ll = "litLen b tbl i"
  note cb = litCost_bound [OF t i]
  note lo = litLen_ok [OF t i]
  have len: "length tbl = length b + 1" and tN: "totalCost (tbl ! length b) = 0"
    using t by (simp_all add: tableOk_def)
  have il: "i < length tbl" using len i by simp
  have cl_small: "?cl \<le> 16384"
  proof -
    from cb have "255 * ?cl \<le> 258 * 8192 + 510" using N by (auto split: if_splits)
    then show ?thesis by simp
  qed
  have rest: "nodeOk b (tbl[i := n]) j" if "Suc i \<le> j" "j < length b" for n j
    using t that by (simp add: nodeOk_update_below tableOk_def)
  have frame: "length (tbl[i := n]) = length b + 1 \<and> totalCost (tbl[i := n] ! length b) = 0" for n
    using len tN i by simp
  show ?thesis
  proof (cases "?cl > ?cm")
    case True
    with cl_small have L4: "4 \<le> ?L" by (auto simp: matchCost_def split: if_splits)
    note fm = findLongestMatch_match [OF L4]
    let ?n = "\<lparr>totalCost = ?cm, matchLength = ?L, matchOffset = snd (findLongestMatch b i),
              literalLength = ?ll\<rparr>"
    have step: "optStep b i tbl = Inr (tbl[i := ?n])"
      using True L4 by (simp add: optStep_unfold)
    have j: "Suc i \<le> i + ?L" "i + ?L \<le> length b" using L4 fm by simp_all
    from tableOk_cost [OF t j]
    have "255 * totalCost (tbl ! (i + ?L)) \<le> 258 * (length b - (i + ?L)) + 465" .
    then have "255 * ?cm \<le> 258 * (length b - i) + 255"
      using L4 j by (auto simp: matchCost_def)
    then have "nodeOk b (tbl[i := ?n]) i" using il L4 by (simp add: nodeOk_def)
    with rest frame have "tableOk b (tbl[i := ?n]) i"
      unfolding tableOk_def by (metis Suc_leI le_neq_implies_less)
    with step show ?thesis by blast
  next
    case False
    let ?n = "\<lparr>totalCost = ?cl, matchLength = 0,
              matchOffset = (if ?L < 4 then matchOffset (tbl ! i) else snd (findLongestMatch b i)),
              literalLength = ?ll\<rparr>"
    have step: "optStep b i tbl = Inr (tbl[i := ?n])"
      using False by (simp add: optStep_unfold)
    have "nodeOk b (tbl[i := ?n]) i"
      using il lo cb by (auto simp: nodeOk_def)
    with rest frame have "tableOk b (tbl[i := ?n]) i"
      unfolding tableOk_def by (metis Suc_leI le_neq_implies_less)
    with step show ?thesis by blast
  qed
qed

lemma optPass1_ok:
  assumes "tableOk b tbl i" and "i \<le> length b" and "length b \<le> MAX_SIZE"
  shows "\<exists>tbl'. optPass1 b i tbl = Inr tbl' \<and> tableOk b tbl' 0"
  using assms
proof (induction i arbitrary: tbl)
  case 0
  then show ?case by simp
next
  case (Suc i)
  from Suc.prems have i: "i < length b" by simp
  from optStep_ok [OF Suc.prems(1) i Suc.prems(3)] obtain tbl1 where
    s: "optStep b i tbl = Inr tbl1" and t1: "tableOk b tbl1 i" by blast
  from Suc.IH [OF t1 _ Suc.prems(3)] i s show ?case by simp
qed

lemma tableOk_init: "tableOk b (replicate (length b + 1) zeroNode) (length b)"
proof -
  have "replicate (length b + 1) zeroNode ! length b = zeroNode"
    by (rule nth_replicate) simp
  then show ?thesis unfolding tableOk_def by auto
qed

subsection \<open>The optimal encoder: pass 2\<close>

text \<open>
  The state of pass 2 at the head of the loop: \<open>nl\<close> pending literals that end at \<open>i\<close>
  and, when literals are pending, a literal node at \<open>i\<close> starts a run of 255.
\<close>

definition emitInv :: "byte list \<Rightarrow> OptNode list \<Rightarrow> nat \<Rightarrow> nat \<Rightarrow> nat \<Rightarrow> bool" where
  "emitInv b tbl i ls nl =
     (i \<le> length b \<and> nl \<le> i \<and> nl \<le> 255 \<and> (nl = 0 \<or> ls + nl = i)
      \<and> (nl \<noteq> 0 \<and> i < length b \<and> matchLength (tbl ! i) = 0
           \<longrightarrow> literalLength (tbl ! i) = 255))"

lemma optEmit_done:
  "\<not> i < length b \<Longrightarrow> optEmit b tbl i ls nl out = Some (ls, nl, out)"
  by (subst optEmit.simps) simp

lemma optEmit_literal_step:
  assumes t: "tableOk b tbl 0" and i: "i < length b" and inv: "emitInv b tbl i ls nl"
    and lit: "matchLength (tbl ! i) = 0"
  shows "optEmit b tbl i ls nl out
           = optEmit b tbl (i + literalLength (tbl ! i)) i (literalLength (tbl ! i))
               (if nl \<noteq> 0 then out @ emitLiterals b ls nl EMPTY_MATCH_TOKEN else out)"
    and "emitInv b tbl (i + literalLength (tbl ! i)) i (literalLength (tbl ! i))"
    and "1 \<le> literalLength (tbl ! i)"
    and "nl \<noteq> 0 \<Longrightarrow> literalLength (tbl ! i) = 255"
proof -
  from t i have ok: "nodeOk b tbl i" by (simp add: tableOk_def)
  from i lit show "optEmit b tbl i ls nl out
           = optEmit b tbl (i + literalLength (tbl ! i)) i (literalLength (tbl ! i))
               (if nl \<noteq> 0 then out @ emitLiterals b ls nl EMPTY_MATCH_TOKEN else out)"
    by (subst optEmit.simps) simp
  from ok lit show "emitInv b tbl (i + literalLength (tbl ! i)) i (literalLength (tbl ! i))"
    by (simp add: nodeOk_def emitInv_def)
  from ok lit show "1 \<le> literalLength (tbl ! i)" by (simp add: nodeOk_def)
  from inv i lit show "literalLength (tbl ! i) = 255" if "nl \<noteq> 0"
    using that by (simp add: emitInv_def)
qed

lemma optEmit_match_step:
  assumes t: "tableOk b tbl 0" and i: "i < length b" and inv: "emitInv b tbl i ls nl"
    and mat: "matchLength (tbl ! i) \<noteq> 0"
  shows "optEmit b tbl i ls nl out
           = optEmit b tbl (i + fst (findLongestMatch b i)) 0 0
               (out @ emitMatch b ls nl (fst (findLongestMatch b i)) (snd (findLongestMatch b i)))"
    and "emitInv b tbl (i + fst (findLongestMatch b i)) 0 0"
    and "4 \<le> fst (findLongestMatch b i)"
proof -
  from t i have ok: "nodeOk b tbl i" by (simp add: tableOk_def)
  with mat have m: "matchLength (tbl ! i) = fst (findLongestMatch b i)"
    "matchOffset (tbl ! i) = snd (findLongestMatch b i)" "4 \<le> matchLength (tbl ! i)"
    by (simp_all add: nodeOk_def)
  from m show L4: "4 \<le> fst (findLongestMatch b i)" by simp
  from i mat m show "optEmit b tbl i ls nl out
           = optEmit b tbl (i + fst (findLongestMatch b i)) 0 0
               (out @ emitMatch b ls nl (fst (findLongestMatch b i)) (snd (findLongestMatch b i)))"
    by (subst optEmit.simps) simp
  from findLongestMatch_match(4) [OF L4]
  show "emitInv b tbl (i + fst (findLongestMatch b i)) 0 0" by (simp add: emitInv_def)
qed

lemma optEmit_prefix:
  assumes "tableOk b tbl 0" and "emitInv b tbl i ls nl"
    and "optEmit b tbl i ls nl out = Some (ls', nl', out')"
  shows "\<exists>mid. out' = out @ mid"
  using assms
proof (induction "length b - i" arbitrary: i ls nl out rule: less_induct)
  case less
  note t = less.prems(1) and inv = less.prems(2) and run = less.prems(3)
  show ?case
  proof (cases "i < length b")
    case False
    with run show ?thesis by (simp add: optEmit_done)
  next
    case True
    show ?thesis
    proof (cases "matchLength (tbl ! i) = 0")
      case lit: True
      note st = optEmit_literal_step [OF t True inv lit]
      have m: "length b - (i + literalLength (tbl ! i)) < length b - i" using st(3) True by simp
      let ?out1 = "if nl \<noteq> 0 then out @ emitLiterals b ls nl EMPTY_MATCH_TOKEN else out"
      from run st(1) [of out]
      have "optEmit b tbl (i + literalLength (tbl ! i)) i (literalLength (tbl ! i)) ?out1
              = Some (ls', nl', out')" by simp
      from less.hyps [OF m t st(2) this] obtain mid where "out' = ?out1 @ mid" by blast
      then show ?thesis by (cases "nl = 0") auto
    next
      case mat: False
      note st = optEmit_match_step [OF t True inv mat]
      have m: "length b - (i + fst (findLongestMatch b i)) < length b - i" using st(3) True by simp
      from run st(1) [of out]
      have "optEmit b tbl (i + fst (findLongestMatch b i)) 0 0
               (out @ emitMatch b ls nl (fst (findLongestMatch b i)) (snd (findLongestMatch b i)))
              = Some (ls', nl', out')" by simp
      from less.hyps [OF m t st(2) this] show ?thesis by auto
    qed
  qed
qed

lemma literal_step_cost:
  fixes len i nl clen :: nat
  assumes "255 * len \<le> 255 + 258 * (i - nl) + (if nl = 255 then 765 else 0)"
    and "nl \<le> i" and "nl \<le> 255" and "nl \<noteq> 0"
    and "clen = 1 + (if 15 \<le> nl then 1 else 0) + nl + 1"
  shows "255 * (len + clen) \<le> 255 + 258 * (i + 255 - 255) + 765"
  using assms by (auto split: if_splits)

lemma match_step_cost:
  fixes len i nl L clen :: nat
  assumes "255 * len \<le> 255 + 258 * (i - nl) + (if nl = 255 then 765 else 0)"
    and "nl \<le> i" and "nl \<le> 255" and "4 \<le> L"
    and "clen = 1 + (if 15 \<le> nl then 1 else 0) + nl + (if 15 \<le> L - 4 then 1 else 0) + 2"
  shows "255 * (len + clen) \<le> 255 + 258 * (i + L - 0) + (if (0::nat) = 255 then 765 else 0)"
  using assms by (auto split: if_splits)

lemma optEmit_bound:
  assumes "tableOk b tbl 0" and "emitInv b tbl i ls nl"
    and "255 * length out \<le> 255 + 258 * (i - nl) + (if nl = 255 then 765 else 0)"
  shows "\<exists>ls' nl' out'. optEmit b tbl i ls nl out = Some (ls', nl', out')
           \<and> 255 * length out' \<le> 255 + 258 * (length b - nl') + (if nl' = 255 then 765 else 0)
           \<and> nl' \<le> 255 \<and> nl' \<le> length b \<and> (nl' = 0 \<or> ls' + nl' = length b)"
  using assms
proof (induction "length b - i" arbitrary: i ls nl out rule: less_induct)
  case less
  note t = less.prems(1) and inv = less.prems(2) and sz = less.prems(3)
  from inv have iv: "i \<le> length b" "nl \<le> i" "nl \<le> 255" "nl = 0 \<or> ls + nl = i"
    by (simp_all add: emitInv_def)
  show ?case
  proof (cases "i < length b")
    case False
    with iv have "i = length b" by simp
    with False sz iv show ?thesis by (simp add: optEmit_done)
  next
    case True
    show ?thesis
    proof (cases "matchLength (tbl ! i) = 0")
      case lit: True
      let ?l = "literalLength (tbl ! i)"
      let ?out1 = "if nl \<noteq> 0 then out @ emitLiterals b ls nl EMPTY_MATCH_TOKEN else out"
      note st = optEmit_literal_step [OF t True inv lit]
      have m: "length b - (i + ?l) < length b - i" using st(3) True by simp
      have sz1: "255 * length ?out1 \<le> 255 + 258 * (i + ?l - ?l) + (if ?l = 255 then 765 else 0)"
      proof (cases "nl = 0")
        case True
        with sz show ?thesis by simp
      next
        case False
        with iv have "ls + nl \<le> length b" by auto
        then have cl: "length (emitLiterals b ls nl EMPTY_MATCH_TOKEN)
                        = 1 + (if 15 \<le> nl then 1 else 0) + nl + 1"
          by (simp add: length_emitLiterals)
        from literal_step_cost [OF sz iv(2,3) False cl] st(4) [OF False] False
        show ?thesis by simp
      qed
      from less.hyps [OF m t st(2) sz1] show ?thesis unfolding st(1) [of out] .
    next
      case mat: False
      let ?L = "fst (findLongestMatch b i)"
      let ?c = "emitMatch b ls nl ?L (snd (findLongestMatch b i))"
      note st = optEmit_match_step [OF t True inv mat]
      have m: "length b - (i + ?L) < length b - i" using st(3) True by simp
      have cl: "length ?c = 1 + (if 15 \<le> nl then 1 else 0) + nl + (if 15 \<le> ?L - 4 then 1 else 0) + 2"
      proof (cases "nl = 0")
        case True
        then show ?thesis by (simp add: emitMatch_eq)
      next
        case False
        with iv have "ls + nl \<le> length b" by auto
        then show ?thesis by (simp add: length_emitMatch)
      qed
      from match_step_cost [OF sz iv(2,3) st(3) cl]
      have sz1: "255 * length (out @ ?c) \<le> 255 + 258 * (i + ?L - 0) + (if (0::nat) = 255 then 765 else 0)"
        by simp
      from less.hyps [OF m t st(2) sz1] show ?thesis unfolding st(1) [of out] .
    qed
  qed
qed

lemma optEmit_decodes:
  assumes "optEmit b tbl i ls nl out = Some (ls', nl', out')"
    and "tableOk b tbl 0" and "emitInv b tbl i ls nl"
    and "S = out' @ emitLiterals b ls' nl' EOD_MATCH_TOKEN @ junk"
    and "inLen = length out' + length (emitLiterals b ls' nl' EOD_MATCH_TOKEN)"
    and "length b \<le> MAX_SIZE"
    and "length ob = MAX_SIZE" and "take (i - nl) ob = take (i - nl) b"
  shows "\<exists>ob'. uncompressLoop S inLen (length out) (i - nl) ob = Inr (inLen, length b, ob')
               \<and> take (length b) ob' = b \<and> length ob' = MAX_SIZE"
  using assms
proof (induction "length b - i" arbitrary: i ls nl out ob rule: less_induct)
  case less
  note run = less.prems(1) and t = less.prems(2) and inv = less.prems(3) and S = less.prems(4)
    and inLen = less.prems(5) and N = less.prems(6) and ob = less.prems(7,8)
  from inv have iv: "i \<le> length b" "nl \<le> i" "nl \<le> 255" "nl = 0 \<or> ls + nl = i"
    by (simp_all add: emitInv_def)
  let ?fin = "emitLiterals b ls' nl' EOD_MATCH_TOKEN"
  have lits_eq: "take nl (drop ls b) = take nl (drop (i - nl) b)"
    using iv(4) by (cases "nl = 0") auto
  have l1: "(i - nl) + nl \<le> length b" using iv by simp
  have o1: "(i - nl) + nl \<le> MAX_SIZE" using iv N by simp
  let ?ob1 = "take (i - nl) ob @ take nl (drop (i - nl) b) @ drop (i - nl + nl) ob"
  have t1: "take i ?ob1 = take i b"
    using agree_literals [OF ob(2), of nl] ob(1) iv l1 N by simp
  have len1: "length ?ob1 = MAX_SIZE" using ob(1) iv N by simp
  show ?case
  proof (cases "i < length b")
    case False
    with iv have p: "i = length b" by simp
    from False run have e: "ls' = ls" "nl' = nl" "out' = out" by (simp_all add: optEmit_done)
    have fin_eq: "emitLiterals b (i - nl) nl EOD_MATCH_TOKEN = ?fin"
      using e lits_eq by (simp add: emitLiterals_eq)
    have cur: "drop (length out) S = emitLiterals b (i - nl) nl EOD_MATCH_TOKEN @ junk"
      using S e fin_eq by simp
    have i1: "length out + length (emitLiterals b (i - nl) nl EOD_MATCH_TOKEN) \<le> inLen"
      using inLen e fin_eq by simp
    from decodeChunk_literals_chunk(2) [OF cur l1 iv(3) o1 ob(1) i1 refl]
    have d: "decodeChunk S inLen (length out) (i - nl) ob = Finished inLen (length b) ?ob1"
      using inLen e fin_eq p iv(2) by simp
    from t1 p have tF: "take (length b) ?ob1 = b" by simp
    from uncompressLoop_Finished [OF d] tF len1 show ?thesis by blast
  next
    case True
    show ?thesis
    proof (cases "matchLength (tbl ! i) = 0")
      case lit: True
      let ?l = "literalLength (tbl ! i)"
      let ?out1 = "if nl \<noteq> 0 then out @ emitLiterals b ls nl EMPTY_MATCH_TOKEN else out"
      note st = optEmit_literal_step [OF t True inv lit]
      have m: "length b - (i + ?l) < length b - i" using st(3) True by simp
      from run st(1) [of out]
      have run1: "optEmit b tbl (i + ?l) i ?l ?out1 = Some (ls', nl', out')" by simp
      show ?thesis
      proof (cases "nl = 0")
        case True
        with ob(2) have "take (i + ?l - ?l) ob = take (i + ?l - ?l) b" by simp
        from less.hyps [OF m run1 t st(2) S inLen N ob(1) this] True show ?thesis by simp
      next
        case False
        let ?c = "emitLiterals b ls nl EMPTY_MATCH_TOKEN"
        from optEmit_prefix [OF t st(2) run1] False obtain mid1 where
          mid1: "out' = (out @ ?c) @ mid1" by auto
        have c_eq: "?c = emitLiterals b (i - nl) nl EMPTY_MATCH_TOKEN"
          using lits_eq by (simp add: emitLiterals_eq)
        have cur: "drop (length out) S
                     = emitLiterals b (i - nl) nl EMPTY_MATCH_TOKEN @ (mid1 @ ?fin @ junk)"
          using S mid1 c_eq by simp
        have i1: "length out + length (emitLiterals b (i - nl) nl EMPTY_MATCH_TOKEN) \<le> inLen"
          using inLen mid1 c_eq by simp
        from decodeChunk_literals_chunk(1) [OF cur l1 iv(3) o1 ob(1) i1 refl]
        have d: "decodeChunk S inLen (length out) (i - nl) ob
                   = NextChunk (length (out @ ?c)) i ?ob1"
          using c_eq iv(2) by simp
        have t1': "take (i + ?l - ?l) ?ob1 = take (i + ?l - ?l) b" using t1 by simp
        from less.hyps [OF m run1 t st(2) S inLen N len1 t1'] False
        have "\<exists>ob'. uncompressLoop S inLen (length (out @ ?c)) i ?ob1 = Inr (inLen, length b, ob')
               \<and> take (length b) ob' = b \<and> length ob' = MAX_SIZE" by simp
        then show ?thesis by (simp only: uncompressLoop_NextChunk [OF d])
      qed
    next
      case mat: False
      let ?L = "fst (findLongestMatch b i)"
      let ?off = "snd (findLongestMatch b i)"
      let ?c = "emitMatch b ls nl ?L ?off"
      note st = optEmit_match_step [OF t True inv mat]
      note fm = findLongestMatch_match [OF st(3)]
      have m: "length b - (i + ?L) < length b - i" using st(3) True by simp
      from run st(1) [of out]
      have run1: "optEmit b tbl (i + ?L) 0 0 (out @ ?c) = Some (ls', nl', out')" by simp
      from optEmit_prefix [OF t st(2) run1] obtain mid1 where
        mid1: "out' = (out @ ?c) @ mid1" by auto
      have c_eq: "?c = emitMatch b (i - nl) nl ?L ?off" using lits_eq by (simp add: emitMatch_eq)
      have cur: "drop (length out) S = emitMatch b (i - nl) nl ?L ?off @ (mid1 @ ?fin @ junk)"
        using S mid1 c_eq by simp
      have offb: "?off < 65536" using fm(1) iv N by simp
      have o2: "(i - nl) + nl + ?L \<le> MAX_SIZE" "?off + ?L \<le> MAX_SIZE" using fm iv N by simp_all
      have i1: "length out + length (emitMatch b (i - nl) nl ?L ?off) \<le> inLen"
        using inLen mid1 c_eq by simp
      have pl: "i + ?L \<le> length ?ob1" unfolding len1 using fm(4) N by simp
      from copyMatch_correct [OF t1 fm(1,2) fm(4) pl] len1
      obtain ob2 where c2: "copyMatch ?ob1 i ?off ?L = Some ob2"
        and t2: "take (i + ?L) ob2 = take (i + ?L) b" and len2: "length ob2 = MAX_SIZE"
        by auto
      from c2 iv have c2': "copyMatch ?ob1 (i - nl + nl) ?off ?L = Some ob2" by simp
      from decodeChunk_match_chunk(1) [OF cur l1 iv(3) st(3) fm(3) offb o2 ob(1) i1 c2']
      have d: "decodeChunk S inLen (length out) (i - nl) ob
                 = NextChunk (length (out @ ?c)) (i + ?L) ob2"
        using iv c_eq by simp
      have t2': "take (i + ?L - 0) ob2 = take (i + ?L - 0) b" using t2 by simp
      from less.hyps [OF m run1 t st(2) S inLen N len2 t2']
      have "\<exists>ob'. uncompressLoop S inLen (length (out @ ?c)) (i + ?L) ob2 = Inr (inLen, length b, ob')
               \<and> take (length b) ob' = b \<and> length ob' = MAX_SIZE" by simp
      then show ?thesis by (simp only: uncompressLoop_NextChunk [OF d])
    qed
  qed
qed

lemma compressBufferOptimally_sound:
  assumes "length b \<le> MAX_SIZE"
  shows "\<exists>out. compressBufferOptimally b = Some (Inr out)
           \<and> length out \<le> length b + MAX_EXPANSION
           \<and> (\<forall>junk ob. length ob = MAX_SIZE \<longrightarrow>
                (\<exists>ob'. uncompressBuffer ob (out @ junk) (length out)
                         = Inr (length b, ob', length out)
                      \<and> take (length b) ob' = b))"
proof -
  from optPass1_ok [OF tableOk_init _ assms] obtain tbl where
    p1: "optPass1 b (length b) (replicate (length b + 1) zeroNode) = Inr tbl"
    and t: "tableOk b tbl 0" by auto
  have inv0: "emitInv b tbl 0 0 0" by (simp add: emitInv_def)
  have s0: "255 * length [LZ4FH_MAGIC] \<le> 255 + 258 * (0 - 0) + (if (0::nat) = 255 then 765 else 0)"
    by simp
  from optEmit_bound [OF t inv0 s0] obtain ls' nl' out' where
    run: "optEmit b tbl 0 0 0 [LZ4FH_MAGIC] = Some (ls', nl', out')"
    and sz: "255 * length out' \<le> 255 + 258 * (length b - nl') + (if nl' = 255 then 765 else 0)"
    and nl': "nl' \<le> 255" "nl' \<le> length b" "nl' = 0 \<or> ls' + nl' = length b"
    by blast
  let ?fin = "emitLiterals b ls' nl' EOD_MATCH_TOKEN"
  let ?out = "out' @ ?fin"
  have res: "compressBufferOptimally b = Some (Inr ?out)"
    unfolding compressBufferOptimally_def p1 by (simp add: run)
  have "length ?fin \<le> nl' + 3" by (auto simp: emitLiterals_eq)
  with sz nl' have "255 * length ?out \<le> 1020 + 258 * length b"
    by (auto split: if_splits)
  with assms have bound: "length ?out \<le> length b + 100" by simp
  have dec: "\<exists>ob'. uncompressBuffer ob (?out @ junk) (length ?out)
                         = Inr (length b, ob', length ?out)
                      \<and> take (length b) ob' = b"
    if ob: "length ob = MAX_SIZE" for junk ob
  proof -
    have S: "?out @ junk = out' @ ?fin @ junk" by simp
    have t0: "take (0 - 0) ob = take (0 - 0) b" by simp
    from optEmit_decodes [OF run t inv0 S _ assms ob t0]
    obtain ob' where u: "uncompressLoop (?out @ junk) (length ?out) (length [LZ4FH_MAGIC]) (0 - 0) ob
                       = Inr (length ?out, length b, ob')"
      and tb: "take (length b) ob' = b" by auto
    from optEmit_prefix [OF t inv0 run] obtain mid where "out' = [LZ4FH_MAGIC] @ mid" by blast
    then have "readByte (?out @ junk) 0 = Some LZ4FH_MAGIC" by (simp add: readByte_def)
    with u have "uncompressBuffer ob (?out @ junk) (length ?out) = Inr (length b, ob', length ?out)"
      by (simp add: uncompressBuffer_def)
    with tb show ?thesis by blast
  qed
  from res bound dec show ?thesis by blast
qed

subsection \<open>Screen holes\<close>

text \<open>
  \<^verbatim>\<open>zeroHoles(inBuf)\<close>: \<^verbatim>\<open>inPtr\<close> starts at 120 and moves by 128 while it is below
  \<^verbatim>\<open>MAX_SIZE\<close>; \<^verbatim>\<open>memset(inPtr, 0, 8)\<close> stores eight zero bytes. The array holds
  \<^verbatim>\<open>MAX_SIZE\<close> bytes, so every store is inside it.
\<close>

function zeroHolesLoop :: "byte list \<Rightarrow> nat \<Rightarrow> byte list" where
  "zeroHolesLoop inBuf inPos =
     (if inPos < MAX_SIZE
      then zeroHolesLoop (fold (\<lambda>k buf. buf[inPos + k := 0]) [0..<8] inBuf) (inPos + 128)
      else inBuf)"
  by pat_completeness auto
termination
  by (relation "measure (\<lambda>(inBuf, inPos). MAX_SIZE - inPos)") auto

definition zeroHoles :: "byte list \<Rightarrow> byte list" where
  "zeroHoles inBuf = zeroHolesLoop inBuf 120"

text \<open>
  \<^verbatim>\<open>fillHoles(inBuf)\<close>: for each hole, \<^verbatim>\<open>useAfter\<close> is set when the four bytes after the
  hole look like a two-byte pattern (and lie inside the array); the hole is then filled
  from the bytes after it, from index 7 down to 0, and otherwise from the bytes before
  it, from index 0 up to 7. Each store reads the array as the earlier stores left it.
\<close>

function fillHolesLoop :: "byte list \<Rightarrow> nat \<Rightarrow> byte list" where
  "fillHolesLoop inBuf inPos =
     (if inPos < MAX_SIZE then
        (let checkp = inPos + 8;
             useAfter = (checkp < MAX_SIZE
                         \<and> inBuf ! checkp = inBuf ! (checkp + 2)
                         \<and> inBuf ! (checkp + 1) = inBuf ! (checkp + 3));
             inBuf' = (if useAfter
                       then fold (\<lambda>i buf. buf[inPos + i := buf ! (inPos + i + 2)]) (rev [0..<8]) inBuf
                       else fold (\<lambda>i buf. buf[inPos + i := buf ! (inPos + i - 2)]) [0..<8] inBuf)
         in fillHolesLoop inBuf' (inPos + 128))
      else inBuf)"
  by pat_completeness auto
termination
  by (relation "measure (\<lambda>(inBuf, inPos). MAX_SIZE - inPos)") auto

definition fillHoles :: "byte list \<Rightarrow> byte list" where
  "fillHoles inBuf = fillHolesLoop inBuf 120"

subsection \<open>The compress-twice driver\<close>

text \<open>
  \<^verbatim>\<open>compressFile\<close>, from the size check to the verification; the file system is outside
  the model. \<open>fileData\<close> is the content of the input file. The arrays of
  \<^verbatim>\<open>compressFile\<close> are local and not initialised: \<open>stack\<close> gives the byte an array holds
  at an index that has not been written. The encoders are handed the first
  \<^verbatim>\<open>sourceLen\<close> bytes of an input array; the decoder is handed the whole output array
  and \<^verbatim>\<open>outSize\<close>. A failing \<^verbatim>\<open>assert\<close> ends the program (\<open>Aborted\<close>).
  The result of a successful run is the data written to the output file together with
  the input array that was compressed.
\<close>

datatype fileError = BadInputSize | Aborted | CompressionFailed
  | VerifyLengthMismatch nat nat | VerifyDataMismatch

definition compressBuffer :: "bool \<Rightarrow> byte list \<Rightarrow> (error + byte list) option" where
  "compressBuffer useGreedyParsing inBuf =
     (if useGreedyParsing then Some (compressBufferGreedily inBuf)
      else compressBufferOptimally inBuf)"

definition array :: "(nat \<Rightarrow> byte) \<Rightarrow> nat \<Rightarrow> byte list \<Rightarrow> byte list" where
  "array stack n written = written @ map stack [length written..<n]"

text \<open>
  Lines 841--865: the check of \<^verbatim>\<open>outSize\<close> and the verification. The byte-for-byte
  loop over \<open>ii < sourceLen\<close> compares the first \<open>sourceLen\<close> bytes of the two arrays.
\<close>

definition verify ::
  "(nat \<Rightarrow> byte) \<Rightarrow> nat \<Rightarrow> byte list \<Rightarrow> byte list \<Rightarrow> fileError + (byte list \<times> byte list)" where
  "verify stack sourceLen inBuf out =
     (if length out = 0 then Inl CompressionFailed
      else
        (let verifyBuf = replicate MAX_SIZE (0xcc :: byte);
             r = uncompressBuffer verifyBuf (array stack (MAX_SIZE + MAX_EXPANSION) out) (length out);
             uncompressedLen = returnValue r
         in if uncompressedLen \<noteq> sourceLen then Inl (VerifyLengthMismatch uncompressedLen sourceLen)
            else (case r of
                    Inl e \<Rightarrow> Inl (VerifyLengthMismatch uncompressedLen sourceLen)
                  | Inr (n, verifyBuf', used) \<Rightarrow>
                      if take sourceLen inBuf \<noteq> take sourceLen verifyBuf'
                      then Inl VerifyDataMismatch
                      else Inr (out, inBuf))))"

definition compressFile ::
  "(nat \<Rightarrow> byte) \<Rightarrow> byte list \<Rightarrow> bool \<Rightarrow> bool \<Rightarrow> (fileError + (byte list \<times> byte list)) option"
  where
  "compressFile stack fileData doPreserveHoles useGreedyParsing =
     (let fileLen = length fileData in
      if fileLen < MIN_SIZE \<or> fileLen > MAX_SIZE then Some (Inl BadInputSize)
      else
        (let inBuf1 = array stack MAX_SIZE fileData in
         if doPreserveHoles then
           (case compressBuffer useGreedyParsing (take fileLen inBuf1) of
              None \<Rightarrow> None
            | Some (Inl e) \<Rightarrow> Some (Inl Aborted)
            | Some (Inr out1) \<Rightarrow> Some (verify stack fileLen inBuf1 out1))
         else
           (let sourceLen = MIN_SIZE;
                inBuf2 = array stack MAX_SIZE (take sourceLen inBuf1);
                inBuf1z = zeroHoles inBuf1
            in case compressBuffer useGreedyParsing (take sourceLen inBuf1z) of
                 None \<Rightarrow> None
               | Some (Inl e) \<Rightarrow> Some (Inl Aborted)
               | Some (Inr out1) \<Rightarrow>
                   (let inBuf2f = fillHoles inBuf2
                    in case compressBuffer useGreedyParsing (take sourceLen inBuf2f) of
                         None \<Rightarrow> None
                       | Some (Inl e) \<Rightarrow> Some (Inl Aborted)
                       | Some (Inr out2) \<Rightarrow>
                           if length out1 \<le> length out2
                           then Some (verify stack sourceLen inBuf1z out1)
                           else Some (verify stack sourceLen inBuf2f out2)))))"

declare zeroHolesLoop.simps [simp del] fillHolesLoop.simps [simp del]

lemma length_fold_update:
  "length (fold (\<lambda>i buf. buf[f i := g i buf]) xs buf) = length buf"
  by (induction xs arbitrary: buf) simp_all

lemma length_zeroHolesLoop: "length (zeroHolesLoop inBuf inPos) = length inBuf"
proof (induction inBuf inPos rule: zeroHolesLoop.induct)
  case (1 inBuf inPos)
  show ?case
  proof (cases "inPos < MAX_SIZE")
    case True
    have "length (fold (\<lambda>k buf. buf[inPos + k := 0]) [0..<8] inBuf) = length inBuf"
      by (rule length_fold_update)
    with "1.IH" [OF True] True show ?thesis by (subst zeroHolesLoop.simps) simp
  next
    case False
    then show ?thesis by (subst zeroHolesLoop.simps) simp
  qed
qed

lemma length_zeroHoles: "length (zeroHoles inBuf) = length inBuf"
  by (simp add: zeroHoles_def length_zeroHolesLoop)

lemma length_fillHolesLoop: "length (fillHolesLoop inBuf inPos) = length inBuf"
proof (induction "MAX_SIZE - inPos" arbitrary: inBuf inPos rule: less_induct)
  case less
  show ?case
  proof (cases "inPos < MAX_SIZE")
    case True
    then have m: "MAX_SIZE - (inPos + 128) < MAX_SIZE - inPos" by simp
    have a: "length (fold (\<lambda>i buf. buf[inPos + i := buf ! (inPos + i + 2)]) (rev [0..<8]) inBuf)
               = length inBuf"
      by (rule length_fold_update)
    have c: "length (fold (\<lambda>i buf. buf[inPos + i := buf ! (inPos + i - 2)]) [0..<8] inBuf)
               = length inBuf"
      by (rule length_fold_update)
    from True a c less.hyps [OF m] show ?thesis
      by (subst fillHolesLoop.simps) (simp add: Let_def)
  next
    case False
    then show ?thesis by (subst fillHolesLoop.simps) simp
  qed
qed

lemma length_fillHoles: "length (fillHoles inBuf) = length inBuf"
  by (simp add: fillHoles_def length_fillHolesLoop)

lemma length_array: "length written \<le> n \<Longrightarrow> length (array stack n written) = n"
  by (simp add: array_def)

lemma array_append: "\<exists>junk. array stack n written = written @ junk"
  by (simp add: array_def)

lemma compressBuffer_sound:
  assumes "length b \<le> MAX_SIZE"
  shows "\<exists>out. compressBuffer useGreedyParsing b = Some (Inr out)
           \<and> length out \<le> length b + MAX_EXPANSION
           \<and> (\<forall>junk ob. length ob = MAX_SIZE \<longrightarrow>
                (\<exists>ob'. uncompressBuffer ob (out @ junk) (length out)
                         = Inr (length b, ob', length out)
                      \<and> take (length b) ob' = b))"
  using compressBufferGreedily_sound [OF assms] compressBufferOptimally_sound [OF assms]
  by (cases useGreedyParsing) (simp_all add: compressBuffer_def)

lemma compressBufferGreedily_magic:
  assumes "compressBufferGreedily b = Inr out"
  shows "\<exists>rest. out = LZ4FH_MAGIC # rest"
proof -
  from assms obtain ls nl out' where
    run: "greedyLoop b 0 0 0 [LZ4FH_MAGIC] = Inr (ls, nl, out')"
    and out: "out = out' @ emitLiterals b ls nl EOD_MATCH_TOKEN"
    by (auto simp: compressBufferGreedily_def split: sum.splits)
  from greedyLoop_prefix [OF run] out show ?thesis by auto
qed

lemma compressBufferOptimally_magic:
  assumes "compressBufferOptimally b = Some (Inr out)" and "length b \<le> MAX_SIZE"
  shows "\<exists>rest. out = LZ4FH_MAGIC # rest"
proof -
  from optPass1_ok [OF tableOk_init _ assms(2)] obtain tbl where
    p1: "optPass1 b (length b) (replicate (length b + 1) zeroNode) = Inr tbl"
    and t: "tableOk b tbl 0" by auto
  have inv0: "emitInv b tbl 0 0 0" by (simp add: emitInv_def)
  from assms(1) obtain ls nl out' where
    run: "optEmit b tbl 0 0 0 [LZ4FH_MAGIC] = Some (ls, nl, out')"
    and out: "out = out' @ emitLiterals b ls nl EOD_MATCH_TOKEN"
    unfolding compressBufferOptimally_def p1 by (auto split: option.splits)
  from optEmit_prefix [OF t inv0 run] out show ?thesis by auto
qed

lemma compressBuffer_magic:
  assumes "compressBuffer useGreedyParsing b = Some (Inr out)" and "length b \<le> MAX_SIZE"
  shows "\<exists>rest. out = LZ4FH_MAGIC # rest"
  using assms compressBufferGreedily_magic [of b out] compressBufferOptimally_magic [of b out]
  by (cases useGreedyParsing) (simp_all add: compressBuffer_def)

lemma verify_ok:
  assumes c: "compressBuffer useGreedyParsing (take sourceLen inBuf) = Some (Inr out)"
    and len: "sourceLen \<le> length inBuf" "sourceLen \<le> MAX_SIZE"
  shows "verify stack sourceLen inBuf out = Inr (out, inBuf)"
proof -
  let ?b = "take sourceLen inBuf"
  have lb: "length ?b = sourceLen" using len by simp
  then have lb': "length ?b \<le> MAX_SIZE" using len by simp
  from compressBuffer_magic [OF c lb'] have ne: "length out \<noteq> 0" by auto
  from compressBuffer_sound [OF lb', of useGreedyParsing] c
  have dec: "\<forall>junk ob. length ob = MAX_SIZE \<longrightarrow>
                (\<exists>ob'. uncompressBuffer ob (out @ junk) (length out)
                         = Inr (length ?b, ob', length out)
                      \<and> take (length ?b) ob' = ?b)" by auto
  obtain junk where j: "array stack (MAX_SIZE + MAX_EXPANSION) out = out @ junk"
    using array_append by blast
  have "length (replicate MAX_SIZE (0xcc :: byte)) = MAX_SIZE" by simp
  with dec obtain ob' where
    u: "uncompressBuffer (replicate MAX_SIZE 0xcc) (out @ junk) (length out)
          = Inr (sourceLen, ob', length out)"
    and tk: "take sourceLen ob' = take sourceLen inBuf"
    unfolding lb by (metis (no_types) take_take min.idem)
  show ?thesis
    unfolding verify_def j Let_def u
    using ne tk by (simp add: returnValue_def)
qed

text \<open>
  C9. With hole preservation disabled and a file of valid size, the driver compresses
  the first 8184 bytes of the zero-filled copy (\<open>out1\<close>) and of the content-filled copy
  (\<open>out2\<close>), both compressions succeed, and the run ends with the zero-filled variant
  when \<open>out1\<close> is not longer than \<open>out2\<close> (so also on a tie) and with the content-filled
  variant when \<open>out2\<close> is strictly shorter; the verification of the selected output
  succeeds.
\<close>

theorem compressFile_selects_smaller:
  assumes "MIN_SIZE \<le> length fileData" and "length fileData \<le> MAX_SIZE"
  shows "\<exists>out1 out2.
           compressBuffer useGreedyParsing
             (take MIN_SIZE (zeroHoles (array stack MAX_SIZE fileData))) = Some (Inr out1)
         \<and> compressBuffer useGreedyParsing
             (take MIN_SIZE (fillHoles (array stack MAX_SIZE
                (take MIN_SIZE (array stack MAX_SIZE fileData))))) = Some (Inr out2)
         \<and> compressFile stack fileData False useGreedyParsing
             = Some (Inr (if length out1 \<le> length out2
                          then (out1, zeroHoles (array stack MAX_SIZE fileData))
                          else (out2, fillHoles (array stack MAX_SIZE
                                  (take MIN_SIZE (array stack MAX_SIZE fileData))))))"
proof -
  let ?inBuf1 = "array stack MAX_SIZE fileData"
  let ?inBuf2 = "array stack MAX_SIZE (take MIN_SIZE ?inBuf1)"
  have l1: "length ?inBuf1 = MAX_SIZE" using assms by (simp add: length_array)
  have l2: "length ?inBuf2 = MAX_SIZE" using l1 by (simp add: length_array)
  have lz: "length (zeroHoles ?inBuf1) = MAX_SIZE" using l1 by (simp add: length_zeroHoles)
  have lf: "length (fillHoles ?inBuf2) = MAX_SIZE" using l2 by (simp add: length_fillHoles)
  have b1: "length (take MIN_SIZE (zeroHoles ?inBuf1)) \<le> MAX_SIZE" by simp
  have b2: "length (take MIN_SIZE (fillHoles ?inBuf2)) \<le> MAX_SIZE" by simp
  from compressBuffer_sound [OF b1, of useGreedyParsing] obtain out1 where
    c1: "compressBuffer useGreedyParsing (take MIN_SIZE (zeroHoles ?inBuf1)) = Some (Inr out1)"
    by blast
  from compressBuffer_sound [OF b2, of useGreedyParsing] obtain out2 where
    c2: "compressBuffer useGreedyParsing (take MIN_SIZE (fillHoles ?inBuf2)) = Some (Inr out2)"
    by blast
  have v1: "verify stack MIN_SIZE (zeroHoles ?inBuf1) out1 = Inr (out1, zeroHoles ?inBuf1)"
    using c1 lz by (intro verify_ok [of useGreedyParsing]) simp_all
  have v2: "verify stack MIN_SIZE (fillHoles ?inBuf2) out2 = Inr (out2, fillHoles ?inBuf2)"
    using c2 lf by (intro verify_ok [of useGreedyParsing]) simp_all
  have "compressFile stack fileData False useGreedyParsing
             = Some (Inr (if length out1 \<le> length out2
                          then (out1, zeroHoles ?inBuf1) else (out2, fillHoles ?inBuf2)))"
    using assms c1 c2 v1 v2 by (simp add: compressFile_def Let_def)
  with c1 c2 show ?thesis by blast
qed

theorem compressFile_selects_smaller_witness:
  "\<exists>out1 out2.
     compressBuffer True
       (take MIN_SIZE (zeroHoles (array (\<lambda>i. 0) MAX_SIZE (replicate 8192 0)))) = Some (Inr out1)
   \<and> compressBuffer True
       (take MIN_SIZE (fillHoles (array (\<lambda>i. 0) MAX_SIZE
          (take MIN_SIZE (array (\<lambda>i. 0) MAX_SIZE (replicate 8192 0)))))) = Some (Inr out2)
   \<and> compressFile (\<lambda>i. 0) (replicate 8192 0) False True
       = Some (Inr (if length out1 \<le> length out2
                    then (out1, zeroHoles (array (\<lambda>i. 0) MAX_SIZE (replicate 8192 0)))
                    else (out2, fillHoles (array (\<lambda>i. 0) MAX_SIZE
                            (take MIN_SIZE (array (\<lambda>i. 0) MAX_SIZE (replicate 8192 0)))))))"
proof -
  have "MIN_SIZE \<le> length (replicate 8192 (0 :: byte))"
    and "length (replicate 8192 (0 :: byte)) \<le> MAX_SIZE" by simp_all
  from compressFile_selects_smaller [OF this, of True "\<lambda>i. 0"] show ?thesis .
qed

text \<open>
  C1. For every buffer \<open>b\<close> of 8184 to 8192 bytes handed to an encoder (the hole policy
  only decides which buffer that is: the file as read, or the first 8184 bytes of its
  zero-filled or content-filled copy), both encoders return, and \<open>uncompressBuffer\<close>
  applied to either output, whatever bytes follow it in the array (\<open>junk\<close>) and
  whatever the 8192-byte output array holds before the call (\<open>verifyBuf\<close>), returns the
  length of \<open>b\<close> and leaves the bytes of \<open>b\<close> at the start of the output array.
\<close>

theorem compress_uncompress_roundtrip:
  assumes "MIN_SIZE \<le> length b" and "length b \<le> MAX_SIZE" and "length verifyBuf = MAX_SIZE"
  shows "\<exists>greedy optimal.
           compressBufferGreedily b = Inr greedy
         \<and> compressBufferOptimally b = Some (Inr optimal)
         \<and> returnValue (uncompressBuffer verifyBuf (greedy @ junk) (length greedy)) = length b
         \<and> (\<exists>v. uncompressBuffer verifyBuf (greedy @ junk) (length greedy)
                   = Inr (length b, v, length greedy) \<and> take (length b) v = b)
         \<and> returnValue (uncompressBuffer verifyBuf (optimal @ junk) (length optimal)) = length b
         \<and> (\<exists>v. uncompressBuffer verifyBuf (optimal @ junk) (length optimal)
                   = Inr (length b, v, length optimal) \<and> take (length b) v = b)"
proof -
  from compressBufferGreedily_sound [OF assms(2)] assms(3) obtain greedy vg where
    g: "compressBufferGreedily b = Inr greedy"
    and ug: "uncompressBuffer verifyBuf (greedy @ junk) (length greedy)
               = Inr (length b, vg, length greedy)"
    and tg: "take (length b) vg = b" by blast
  from compressBufferOptimally_sound [OF assms(2)] assms(3) obtain optimal vo where
    p: "compressBufferOptimally b = Some (Inr optimal)"
    and uo: "uncompressBuffer verifyBuf (optimal @ junk) (length optimal)
               = Inr (length b, vo, length optimal)"
    and to: "take (length b) vo = b" by blast
  have "returnValue (uncompressBuffer verifyBuf (greedy @ junk) (length greedy)) = length b"
    "returnValue (uncompressBuffer verifyBuf (optimal @ junk) (length optimal)) = length b"
    by (simp_all add: ug uo returnValue_def)
  with g p ug tg uo to show ?thesis by blast
qed

theorem compress_uncompress_roundtrip_witness:
  "\<exists>greedy optimal.
     compressBufferGreedily (replicate 8184 0) = Inr greedy
   \<and> compressBufferOptimally (replicate 8184 0) = Some (Inr optimal)
   \<and> returnValue (uncompressBuffer (replicate 8192 0xcc) (greedy @ []) (length greedy)) = 8184
   \<and> (\<exists>v. uncompressBuffer (replicate 8192 0xcc) (greedy @ []) (length greedy)
             = Inr (8184, v, length greedy) \<and> take 8184 v = replicate 8184 0)
   \<and> returnValue (uncompressBuffer (replicate 8192 0xcc) (optimal @ []) (length optimal)) = 8184
   \<and> (\<exists>v. uncompressBuffer (replicate 8192 0xcc) (optimal @ []) (length optimal)
             = Inr (8184, v, length optimal) \<and> take 8184 v = replicate 8184 0)"
proof -
  have "MIN_SIZE \<le> length (replicate 8184 (0 :: byte))"
    and "length (replicate 8184 (0 :: byte)) \<le> MAX_SIZE"
    and "length (replicate 8192 (0xcc :: byte)) = MAX_SIZE" by simp_all
  from compress_uncompress_roundtrip [OF this, of "[]"] show ?thesis
    by (simp only: length_replicate)
qed

text \<open>
  C2. For every input buffer of 8184 to 8192 bytes both encoders return, and the
  compressed output is at most 100 bytes longer than the input.
\<close>

theorem compressed_size_bounded:
  assumes "MIN_SIZE \<le> length b" and "length b \<le> MAX_SIZE"
  shows "\<exists>greedy optimal.
           compressBufferGreedily b = Inr greedy
         \<and> compressBufferOptimally b = Some (Inr optimal)
         \<and> length greedy \<le> length b + MAX_EXPANSION
         \<and> length optimal \<le> length b + MAX_EXPANSION"
  using compressBufferGreedily_sound [OF assms(2)] compressBufferOptimally_sound [OF assms(2)]
  by blast

theorem compressed_size_bounded_witness:
  "\<exists>greedy optimal.
     compressBufferGreedily (replicate 8192 0x55) = Inr greedy
   \<and> compressBufferOptimally (replicate 8192 0x55) = Some (Inr optimal)
   \<and> length greedy \<le> 8192 + MAX_EXPANSION
   \<and> length optimal \<le> 8192 + MAX_EXPANSION"
proof -
  have "MIN_SIZE \<le> length (replicate 8192 (0x55 :: byte))"
    and "length (replicate 8192 (0x55 :: byte)) \<le> MAX_SIZE" by simp_all
  from compressed_size_bounded [OF this] show ?thesis by (simp only: length_replicate)
qed

subsection \<open>The chunks of an encoder's output\<close>

text \<open>
  A chunk as the encoders emit it: the index of its first literal, the number of its
  literals, and what follows them (a match of a length at an offset, the empty-match
  token, or the end-of-data token). \<open>chunkBytes\<close> is the emitted block.
\<close>

datatype chunkKind = WithMatch nat nat | NoMatch | EndOfStream

fun chunkBytes :: "byte list \<Rightarrow> nat \<times> nat \<times> chunkKind \<Rightarrow> byte list" where
  "chunkBytes b (ls, nl, WithMatch L off) = emitMatch b ls nl L off"
| "chunkBytes b (ls, nl, NoMatch) = emitLiterals b ls nl EMPTY_MATCH_TOKEN"
| "chunkBytes b (ls, nl, EndOfStream) = emitLiterals b ls nl EOD_MATCH_TOKEN"

definition runOk :: "byte list \<Rightarrow> nat \<times> nat \<times> chunkKind \<Rightarrow> bool" where
  "runOk b c = (case c of (ls, nl, k) \<Rightarrow> nl \<le> 255 \<and> length (take nl (drop ls b)) = nl)"

definition fullRun :: "nat \<times> nat \<times> chunkKind \<Rightarrow> bool" where
  "fullRun c = (case c of (ls, nl, k) \<Rightarrow> k = NoMatch \<longrightarrow> nl = 255)"

lemma greedyLoop_chunks:
  assumes "greedyLoop b p ls nl out = Inr (ls', nl', out')"
    and "nl \<le> p" and "p \<le> length b" and "nl \<le> 255" and "nl = 0 \<or> ls + nl = p"
  shows "\<exists>cs. out' = out @ concat (map (chunkBytes b) cs)
            \<and> (\<forall>c\<in>set cs. runOk b c \<and> fullRun c)
            \<and> nl' \<le> 255 \<and> (nl' = 0 \<or> ls' + nl' = length b)"
  using assms
proof (induction "length b - p" arbitrary: p ls nl out rule: less_induct)
  case less
  note run = less.prems(1) and inv = less.prems(2-5)
  show ?case
  proof (cases "p < length b")
    case False
    with inv have "p = length b" by simp
    moreover from False run have "ls' = ls" "nl' = nl" "out' = out"
      by (simp_all add: greedyLoop_unfold [of b p])
    ultimately have "out' = out @ concat (map (chunkBytes b) [])
            \<and> (\<forall>c\<in>set []. runOk b c \<and> fullRun c)
            \<and> nl' \<le> 255 \<and> (nl' = 0 \<or> ls' + nl' = length b)"
      using inv by simp
    then show ?thesis by blast
  next
    case True
    let ?L = "fst (findLongestMatch b p)"
    let ?off = "snd (findLongestMatch b p)"
    from True run have a: "length out < 8292"
      by (auto simp: greedyLoop_unfold [of b p] split: if_splits)
    show ?thesis
    proof (cases "?L < 4")
      case lit: True
      let ?ls1 = "if nl = 255 \<or> nl = 0 then p else ls"
      let ?nl1 = "Suc (if nl = 255 then 0 else nl)"
      let ?out1 = "if nl = 255 then out @ emitLiterals b ls 255 EMPTY_MATCH_TOKEN else out"
      from lit True a run have run1: "greedyLoop b (Suc p) ?ls1 ?nl1 ?out1 = Inr (ls', nl', out')"
        by (simp add: greedyLoop_unfold [of b p])
      have m: "length b - Suc p < length b - p" using True by simp
      have inv1: "?nl1 \<le> Suc p" "Suc p \<le> length b" "?nl1 \<le> 255" "?nl1 = 0 \<or> ?ls1 + ?nl1 = Suc p"
        using inv True by auto
      from less.hyps [OF m run1 inv1] obtain cs where
        cs: "out' = ?out1 @ concat (map (chunkBytes b) cs)"
        "\<forall>c\<in>set cs. runOk b c \<and> fullRun c"
        "nl' \<le> 255 \<and> (nl' = 0 \<or> ls' + nl' = length b)" by blast
      show ?thesis
      proof (cases "nl = 255")
        case False
        with cs show ?thesis by auto
      next
        case flush: True
        with inv have "ls + 255 \<le> length b" by auto
        then have ok: "runOk b (ls, 255, NoMatch) \<and> fullRun (ls, 255, NoMatch)"
          by (simp add: runOk_def fullRun_def)
        from cs(1) flush have "out' = out @ concat (map (chunkBytes b) ((ls, 255, NoMatch) # cs))"
          by simp
        moreover from ok cs(2) have "\<forall>c\<in>set ((ls, 255, NoMatch) # cs). runOk b c \<and> fullRun c"
          by simp
        ultimately show ?thesis using cs(3) by blast
      qed
    next
      case mat: False
      then have L4: "4 \<le> ?L" by simp
      note fm = findLongestMatch_match [OF L4]
      let ?c = "emitMatch b ls nl ?L ?off"
      from mat True a run have run1: "greedyLoop b (p + ?L) 0 0 (out @ ?c) = Inr (ls', nl', out')"
        by (simp add: greedyLoop_unfold [of b p])
      have m: "length b - (p + ?L) < length b - p" using True L4 by simp
      have inv1: "(0::nat) \<le> p + ?L" "p + ?L \<le> length b" "(0::nat) \<le> 255"
        "(0::nat) = 0 \<or> 0 + 0 = p + ?L"
        using fm by simp_all
      from less.hyps [OF m run1 inv1] obtain cs where
        cs: "out' = (out @ ?c) @ concat (map (chunkBytes b) cs)"
        "\<forall>c\<in>set cs. runOk b c \<and> fullRun c"
        "nl' \<le> 255 \<and> (nl' = 0 \<or> ls' + nl' = length b)" by blast
      have "length (take nl (drop ls b)) = nl" using inv by (cases "nl = 0") auto
      then have ok: "runOk b (ls, nl, WithMatch ?L ?off) \<and> fullRun (ls, nl, WithMatch ?L ?off)"
        using inv by (simp add: runOk_def fullRun_def)
      from cs(1) have "out' = out @ concat (map (chunkBytes b) ((ls, nl, WithMatch ?L ?off) # cs))"
        by simp
      moreover from ok cs(2)
      have "\<forall>c\<in>set ((ls, nl, WithMatch ?L ?off) # cs). runOk b c \<and> fullRun c" by simp
      ultimately show ?thesis using cs(3) by blast
    qed
  qed
qed

lemma optEmit_chunks:
  assumes "optEmit b tbl i ls nl out = Some (ls', nl', out')"
    and "tableOk b tbl 0" and "emitInv b tbl i ls nl"
  shows "\<exists>cs. out' = out @ concat (map (chunkBytes b) cs)
            \<and> (\<forall>c\<in>set cs. runOk b c)
            \<and> nl' \<le> 255 \<and> (nl' = 0 \<or> ls' + nl' = length b)"
  using assms
proof (induction "length b - i" arbitrary: i ls nl out rule: less_induct)
  case less
  note run = less.prems(1) and t = less.prems(2) and inv = less.prems(3)
  from inv have iv: "i \<le> length b" "nl \<le> i" "nl \<le> 255" "nl = 0 \<or> ls + nl = i"
    by (simp_all add: emitInv_def)
  have lr: "length (take nl (drop ls b)) = nl" using iv by (cases "nl = 0") auto
  show ?case
  proof (cases "i < length b")
    case False
    with iv have "i = length b" by simp
    moreover from False run have "ls' = ls" "nl' = nl" "out' = out"
      by (simp_all add: optEmit_done)
    ultimately have "out' = out @ concat (map (chunkBytes b) [])
            \<and> (\<forall>c\<in>set []. runOk b c)
            \<and> nl' \<le> 255 \<and> (nl' = 0 \<or> ls' + nl' = length b)"
      using iv by simp
    then show ?thesis by blast
  next
    case True
    show ?thesis
    proof (cases "matchLength (tbl ! i) = 0")
      case lit: True
      let ?l = "literalLength (tbl ! i)"
      let ?out1 = "if nl \<noteq> 0 then out @ emitLiterals b ls nl EMPTY_MATCH_TOKEN else out"
      note st = optEmit_literal_step [OF t True inv lit]
      have m: "length b - (i + ?l) < length b - i" using st(3) True by simp
      from run st(1) [of out]
      have run1: "optEmit b tbl (i + ?l) i ?l ?out1 = Some (ls', nl', out')" by simp
      from less.hyps [OF m run1 t st(2)] obtain cs where
        cs: "out' = ?out1 @ concat (map (chunkBytes b) cs)"
        "\<forall>c\<in>set cs. runOk b c"
        "nl' \<le> 255 \<and> (nl' = 0 \<or> ls' + nl' = length b)" by blast
      show ?thesis
      proof (cases "nl = 0")
        case True
        with cs show ?thesis by auto
      next
        case False
        from lr iv have ok: "runOk b (ls, nl, NoMatch)" by (simp add: runOk_def)
        from cs(1) False have "out' = out @ concat (map (chunkBytes b) ((ls, nl, NoMatch) # cs))"
          by simp
        moreover from ok cs(2) have "\<forall>c\<in>set ((ls, nl, NoMatch) # cs). runOk b c" by simp
        ultimately show ?thesis using cs(3) by blast
      qed
    next
      case mat: False
      let ?L = "fst (findLongestMatch b i)"
      let ?off = "snd (findLongestMatch b i)"
      let ?c = "emitMatch b ls nl ?L ?off"
      note st = optEmit_match_step [OF t True inv mat]
      have m: "length b - (i + ?L) < length b - i" using st(3) True by simp
      from run st(1) [of out]
      have run1: "optEmit b tbl (i + ?L) 0 0 (out @ ?c) = Some (ls', nl', out')" by simp
      from less.hyps [OF m run1 t st(2)] obtain cs where
        cs: "out' = (out @ ?c) @ concat (map (chunkBytes b) cs)"
        "\<forall>c\<in>set cs. runOk b c"
        "nl' \<le> 255 \<and> (nl' = 0 \<or> ls' + nl' = length b)" by blast
      from lr iv have ok: "runOk b (ls, nl, WithMatch ?L ?off)" by (simp add: runOk_def)
      from cs(1) have "out' = out @ concat (map (chunkBytes b) ((ls, nl, WithMatch ?L ?off) # cs))"
        by simp
      moreover from ok cs(2)
      have "\<forall>c\<in>set ((ls, nl, WithMatch ?L ?off) # cs). runOk b c" by simp
      ultimately show ?thesis using cs(3) by blast
    qed
  qed
qed

lemma chunk_extension_byte:
  assumes "15 \<le> nl" and "nl \<le> 255"
  shows "unat (chunkBytes b (ls, nl, k) ! 1) = nl - 15"
proof -
  have e: "chunkBytes b (ls, nl, k) ! 1 = of_nat (nl - 15)"
    using assms by (cases k) (simp_all add: emitMatch_eq emitLiterals_eq)
  have "unat (of_nat (nl - 15) :: byte) = nl - 15"
    using assms by (intro unat_byte) simp
  then show ?thesis unfolding e .
qed

lemma full_run_bytes:
  "chunkBytes b (ls, 255, NoMatch) = [0xff, 240] @ take 255 (drop ls b) @ [253]"
  by (simp add: emitLiterals_def)


text \<open>
  C8, amended. For an input of at most 8192 bytes, the output of each encoder is the
  magic byte followed by a sequence of emitted chunks, the last one carrying the
  end-of-data token, in which every chunk has at most 255 literals (all taken from the
  input).
  A literal-length extension byte, which a chunk has when its literals are 15 or more,
  holds the number of literals less 15 and so is at most 240. A chunk of 255 literals
  with the empty-match token is the bytes \<open>ff\<close>, 240, the literals, 253; in the greedy
  encoder's output every chunk with the empty-match token is such a chunk.
  The flush itself: the greedy loop with 255 pending literals, at a position without a
  match, emits \<open>ff\<close>, 240, the 255 literals, 253 and starts a new run with the literal at
  that position; pass 2 of the optimal encoder with 255 pending literals, at a literal
  node, emits the same bytes and takes the node's run as the pending one.
\<close>

theorem literal_runs_bounded:
  assumes "length b \<le> MAX_SIZE"
  shows "\<exists>gcs ocs.
           compressBufferGreedily b = Inr (LZ4FH_MAGIC # concat (map (chunkBytes b) gcs))
         \<and> compressBufferOptimally b = Some (Inr (LZ4FH_MAGIC # concat (map (chunkBytes b) ocs)))
         \<and> (\<forall>c \<in> set gcs \<union> set ocs.
              fst (snd c) \<le> 255
            \<and> length (take (fst (snd c)) (drop (fst c) b)) = fst (snd c)
            \<and> (15 \<le> fst (snd c) \<longrightarrow>
                  unat (chunkBytes b c ! 1) = fst (snd c) - 15 \<and> unat (chunkBytes b c ! 1) \<le> 240)
            \<and> (snd (snd c) = NoMatch \<and> fst (snd c) = 255 \<longrightarrow>
                  chunkBytes b c = [0xff, 240] @ take 255 (drop (fst c) b) @ [253]))
         \<and> (\<forall>c \<in> set gcs. snd (snd c) = NoMatch \<longrightarrow> fst (snd c) = 255)
         \<and> (\<forall>p ls out. p < length b \<and> length out < MAX_SIZE + MAX_EXPANSION
                \<and> fst (findLongestMatch b p) < MIN_MATCH_LEN
              \<longrightarrow> greedyLoop b p ls 255 out
                    = greedyLoop b (p + 1) p 1
                        (out @ [0xff, 240] @ take 255 (drop ls b) @ [253]))
         \<and> (\<forall>(tbl :: OptNode list) i ls out. i < length b \<and> matchLength (tbl ! i) = 0
              \<longrightarrow> optEmit b tbl i ls 255 out
                    = optEmit b tbl (i + literalLength (tbl ! i)) i (literalLength (tbl ! i))
                        (out @ [0xff, 240] @ take 255 (drop ls b) @ [253]))"
proof -
  \<comment> \<open>the greedy encoder\<close>
  from compressBufferGreedily_sound [OF assms] obtain gout where
    g: "compressBufferGreedily b = Inr gout" by blast
  then obtain gls gnl gout' where
    grun: "greedyLoop b 0 0 0 [LZ4FH_MAGIC] = Inr (gls, gnl, gout')"
    and gout: "gout = gout' @ emitLiterals b gls gnl EOD_MATCH_TOKEN"
    by (auto simp: compressBufferGreedily_def split: sum.splits)
  have z: "(0::nat) \<le> 0" "(0::nat) \<le> length b" "(0::nat) \<le> 255" "(0::nat) = 0 \<or> 0 + 0 = (0::nat)"
    by simp_all
  from greedyLoop_chunks [OF grun z] obtain gcs0 where
    gcs0: "gout' = [LZ4FH_MAGIC] @ concat (map (chunkBytes b) gcs0)"
    "\<forall>c\<in>set gcs0. runOk b c \<and> fullRun c"
    "gnl \<le> 255 \<and> (gnl = 0 \<or> gls + gnl = length b)" by blast
  let ?gcs = "gcs0 @ [(gls, gnl, EndOfStream)]"
  have glast: "runOk b (gls, gnl, EndOfStream) \<and> fullRun (gls, gnl, EndOfStream)"
    using gcs0(3) by (auto simp: runOk_def fullRun_def)
  have G1: "compressBufferGreedily b = Inr (LZ4FH_MAGIC # concat (map (chunkBytes b) ?gcs))"
    using g gout gcs0(1) by simp
  have G2: "\<forall>c\<in>set ?gcs. runOk b c \<and> fullRun c" using gcs0(2) glast by simp
  \<comment> \<open>the optimal encoder\<close>
  from optPass1_ok [OF tableOk_init _ assms] obtain tbl where
    p1: "optPass1 b (length b) (replicate (length b + 1) zeroNode) = Inr tbl"
    and t: "tableOk b tbl 0" by auto
  have inv0: "emitInv b tbl 0 0 0" by (simp add: emitInv_def)
  from compressBufferOptimally_sound [OF assms] obtain oout where
    p: "compressBufferOptimally b = Some (Inr oout)" by blast
  then obtain ols onl oout' where
    orun: "optEmit b tbl 0 0 0 [LZ4FH_MAGIC] = Some (ols, onl, oout')"
    and oout: "oout = oout' @ emitLiterals b ols onl EOD_MATCH_TOKEN"
    unfolding compressBufferOptimally_def p1 by (auto split: option.splits)
  from optEmit_chunks [OF orun t inv0] obtain ocs0 where
    ocs0: "oout' = [LZ4FH_MAGIC] @ concat (map (chunkBytes b) ocs0)"
    "\<forall>c\<in>set ocs0. runOk b c"
    "onl \<le> 255 \<and> (onl = 0 \<or> ols + onl = length b)" by blast
  let ?ocs = "ocs0 @ [(ols, onl, EndOfStream)]"
  have olast: "runOk b (ols, onl, EndOfStream)" using ocs0(3) by (auto simp: runOk_def)
  have O1: "compressBufferOptimally b = Some (Inr (LZ4FH_MAGIC # concat (map (chunkBytes b) ?ocs)))"
    using p oout ocs0(1) by simp
  have O2: "\<forall>c\<in>set ?ocs. runOk b c" using ocs0(2) olast by simp
  \<comment> \<open>what a chunk with at most 255 literals looks like\<close>
  have chunk: "fst (snd c) \<le> 255
            \<and> length (take (fst (snd c)) (drop (fst c) b)) = fst (snd c)
            \<and> (15 \<le> fst (snd c) \<longrightarrow>
                  unat (chunkBytes b c ! 1) = fst (snd c) - 15 \<and> unat (chunkBytes b c ! 1) \<le> 240)
            \<and> (snd (snd c) = NoMatch \<and> fst (snd c) = 255 \<longrightarrow>
                  chunkBytes b c = [0xff, 240] @ take 255 (drop (fst c) b) @ [253])"
    if "runOk b c" for c
  proof -
    obtain ls nl k where c: "c = (ls, nl, k)" by (cases c)
    from that c have r: "nl \<le> 255" "length (take nl (drop ls b)) = nl" by (simp_all add: runOk_def)
    have "unat (chunkBytes b (ls, nl, k) ! 1) = nl - 15 \<and> unat (chunkBytes b (ls, nl, k) ! 1) \<le> 240"
      if "15 \<le> nl"
      using chunk_extension_byte [OF that r(1), of b ls k] r(1) by simp
    moreover have "chunkBytes b (ls, nl, k) = [0xff, 240] @ take 255 (drop ls b) @ [253]"
      if "k = NoMatch \<and> nl = 255"
      using that full_run_bytes [of b ls] by simp
    ultimately show ?thesis using r c by auto
  qed
  have all: "\<forall>c \<in> set ?gcs \<union> set ?ocs.
              fst (snd c) \<le> 255
            \<and> length (take (fst (snd c)) (drop (fst c) b)) = fst (snd c)
            \<and> (15 \<le> fst (snd c) \<longrightarrow>
                  unat (chunkBytes b c ! 1) = fst (snd c) - 15 \<and> unat (chunkBytes b c ! 1) \<le> 240)
            \<and> (snd (snd c) = NoMatch \<and> fst (snd c) = 255 \<longrightarrow>
                  chunkBytes b c = [0xff, 240] @ take 255 (drop (fst c) b) @ [253])"
  proof
    fix c assume "c \<in> set ?gcs \<union> set ?ocs"
    with G2 O2 have "runOk b c" by blast
    then show "fst (snd c) \<le> 255
            \<and> length (take (fst (snd c)) (drop (fst c) b)) = fst (snd c)
            \<and> (15 \<le> fst (snd c) \<longrightarrow>
                  unat (chunkBytes b c ! 1) = fst (snd c) - 15 \<and> unat (chunkBytes b c ! 1) \<le> 240)
            \<and> (snd (snd c) = NoMatch \<and> fst (snd c) = 255 \<longrightarrow>
                  chunkBytes b c = [0xff, 240] @ take 255 (drop (fst c) b) @ [253])"
      by (rule chunk)
  qed
  have full: "\<forall>c \<in> set ?gcs. snd (snd c) = NoMatch \<longrightarrow> fst (snd c) = 255"
  proof
    fix c assume "c \<in> set ?gcs"
    with G2 have "fullRun c" by blast
    then show "snd (snd c) = NoMatch \<longrightarrow> fst (snd c) = 255"
      by (cases c) (simp add: fullRun_def)
  qed
  have gflush: "\<forall>p ls out. p < length b \<and> length out < MAX_SIZE + MAX_EXPANSION
                \<and> fst (findLongestMatch b p) < MIN_MATCH_LEN
              \<longrightarrow> greedyLoop b p ls 255 out
                    = greedyLoop b (p + 1) p 1
                        (out @ [0xff, 240] @ take 255 (drop ls b) @ [253])"
    by (simp add: greedyLoop_unfold [of b _ _ 255] emitLiterals_def)
  have oflush: "\<forall>(tbl :: OptNode list) i ls out. i < length b \<and> matchLength (tbl ! i) = 0
              \<longrightarrow> optEmit b tbl i ls 255 out
                    = optEmit b tbl (i + literalLength (tbl ! i)) i (literalLength (tbl ! i))
                        (out @ [0xff, 240] @ take 255 (drop ls b) @ [253])"
  proof (intro allI impI)
    fix tbl :: "OptNode list" and i ls out
    assume "i < length b \<and> matchLength (tbl ! i) = 0"
    then show "optEmit b tbl i ls 255 out
                    = optEmit b tbl (i + literalLength (tbl ! i)) i (literalLength (tbl ! i))
                        (out @ [0xff, 240] @ take 255 (drop ls b) @ [253])"
      by (subst optEmit.simps) (simp add: emitLiterals_def)
  qed
  from G1 O1 all full gflush oflush show ?thesis by blast
qed

theorem literal_runs_bounded_witness:
  "\<exists>gcs ocs.
     compressBufferGreedily (replicate 8184 0)
       = Inr (LZ4FH_MAGIC # concat (map (chunkBytes (replicate 8184 0)) gcs))
   \<and> compressBufferOptimally (replicate 8184 0)
       = Some (Inr (LZ4FH_MAGIC # concat (map (chunkBytes (replicate 8184 0)) ocs)))
   \<and> (\<forall>c \<in> set gcs \<union> set ocs. fst (snd c) \<le> 255)"
proof -
  have "length (replicate 8184 (0 :: byte)) \<le> MAX_SIZE" by simp
  from literal_runs_bounded [OF this] show ?thesis by blast
qed

subsection \<open>Inputs that end in a run of zeros\<close>

text \<open>
  The match finder on a buffer \<open>pre @ replicate M 0\<close>, where \<open>pre\<close> holds no zero:
  inside the zeros (past the first one) the longest match is the whole cap, found at
  the first zero; where no earlier byte equals the byte at \<open>p\<close> there is no match.
\<close>

lemma findLongestMatch_short:
  "length b - p < 4 \<Longrightarrow> findLongestMatch b p = (0, 0)"
  by (simp add: findLongestMatch_def findLoop_unfold [of b p 0] maxLenAt_def)

lemma findLongestMatch_none:
  assumes "\<forall>i<p. b ! i \<noteq> b ! p"
  shows "findLongestMatch b p = (0, 0)"
proof -
  obtain len off where f: "findLongestMatch b p = (len, off)"
    by (cases "findLongestMatch b p")
  note spec = findLongestMatch_spec [OF f]
  have "len = 0"
  proof (rule ccontr)
    assume "len \<noteq> 0"
    then have pos: "0 < len" by simp
    from spec(3) [OF pos] have o: "off < p"
      and g: "getMatchLen b p off (maxLenAt b p) = len" by simp_all
    from getMatchLen_match [of 0 b p off "maxLenAt b p"] g pos have "b ! p = b ! off" by simp
    with assms o show False by auto
  qed
  with spec(4) f show ?thesis by simp
qed

lemma findLongestMatch_zeros:
  assumes nz: "\<forall>x\<in>set pre. x \<noteq> 0" and p: "length pre < p"
    and e: "p + 4 \<le> length pre + M"
  shows "findLongestMatch (pre @ replicate M 0) p
           = (min 255 (length pre + M - p), length pre)"
proof -
  let ?b = "pre @ replicate M (0::byte)"
  let ?k = "length pre"
  let ?m = "maxLenAt ?b p"
  have m: "?m = min 255 (?k + M - p)" by (simp add: maxLenAt_def)
  have m4: "4 \<le> ?m" using e m by simp
  have z: "?b ! j = 0" if "?k \<le> j" "j < ?k + M" for j using that by (simp add: nth_append)
  have nzp: "?b ! j \<noteq> 0" if "j < ?k" for j using that nz by (simp add: nth_append)
  have "matchAt ?b p ?k ?m"
    unfolding matchAt_def
  proof (intro allI impI)
    fix i assume "i < ?m"
    with m have "i < ?k + M - p" by simp
    with p have "?k + i < ?k + M" "p + i < ?k + M" "?k \<le> ?k + i" "?k \<le> p + i" by linarith+
    then show "?b ! (?k + i) = ?b ! (p + i)" by (simp only: z)
  qed
  from matchAt_le_getMatchLen [OF le_refl this] getMatchLen_le [of ?b p ?k ?m]
  have gk: "getMatchLen ?b p ?k ?m = ?m" by simp
  obtain len off where f: "findLongestMatch ?b p = (len, off)"
    by (cases "findLongestMatch ?b p")
  note spec = findLongestMatch_spec [OF f]
  from spec(2) p m4 gk have "?m \<le> len" by fastforce
  with spec(1) have len: "len = ?m" by simp
  with m4 have pos: "0 < len" by simp
  from spec(3) [OF pos] have o: "off < p" and g: "getMatchLen ?b p off ?m = len"
    and first: "\<forall>i<off. getMatchLen ?b p i ?m < len" by simp_all
  have "off = ?k"
  proof (rule ccontr)
    assume ne: "off \<noteq> ?k"
    show False
    proof (cases "off < ?k")
      case True
      from getMatchLen_match [of 0 ?b p off ?m] g pos have "?b ! p = ?b ! off" by simp
      moreover from p e have "?b ! p = 0" by (intro z) simp_all
      ultimately show False using nzp [OF True] by simp
    next
      case False
      with ne have "?k < off" by simp
      with first gk len show False by auto
    qed
  qed
  with f len m show ?thesis by simp
qed

lemma findLongestMatch_prefix:
  assumes d: "distinct (pre @ [0])" and p: "p \<le> length pre" and M: "0 < M"
  shows "findLongestMatch (pre @ replicate M 0) p = (0, 0)"
proof (rule findLongestMatch_none, intro allI impI)
  fix i assume i: "i < p"
  have e: "(pre @ replicate M (0::byte)) ! j = (pre @ [0]) ! j" if "j \<le> length pre" for j
    using that M by (cases "j < length pre") (simp_all add: nth_append)
  from i p have "i < length (pre @ [0 :: byte])" "p < length (pre @ [0 :: byte])" "i \<noteq> p"
    by simp_all
  with nth_eq_iff_index_eq [OF d this(1,2)] have "(pre @ [0]) ! i \<noteq> (pre @ [0]) ! p"
    by simp
  with i p show "(pre @ replicate M 0) ! i \<noteq> (pre @ replicate M 0) ! p" by (simp add: e)
qed

lemma distinct_no_zero: "distinct (pre @ [0 :: byte]) \<Longrightarrow> \<forall>x\<in>set pre. x \<noteq> 0"
  by auto

text \<open>The greedy loop over such a buffer: a run of literals, then matches of 255.\<close>

lemma greedyLoop_literals:
  assumes nm: "\<And>p. p \<le> k \<Longrightarrow> findLongestMatch b p = (0, 0)" and k: "k < length b"
    and out: "length out < 8292"
  shows "p + n \<le> Suc k \<Longrightarrow> nl + n \<le> 255 \<Longrightarrow>
         greedyLoop b p ls nl out
           = greedyLoop b (p + n) (if nl = 0 \<and> 0 < n then p else ls) (nl + n) out"
proof (induction n arbitrary: p ls nl)
  case 0
  then show ?case by simp
next
  case (Suc n)
  from Suc.prems have pk: "p \<le> k" and nl: "nl \<noteq> 255" by simp_all
  from Suc.prems have "Suc p + n \<le> Suc k" "Suc nl + n \<le> 255" by simp_all
  note ih = Suc.IH [OF this, of "if nl = 0 then p else ls"]
  from pk k nl out show ?case
    by (subst greedyLoop_unfold) (simp add: nm [OF pk] ih)
qed

lemma length_full_match: "length (emitMatch b 0 0 255 k) = 4"
  by (simp add: emitMatch_eq)

lemma greedyLoop_zero_chain:
  assumes len: "length b = N"
    and fz: "\<And>p. k < p \<Longrightarrow> p + 4 \<le> N \<Longrightarrow> findLongestMatch b p = (min 255 (N - p), k)"
  shows "k < p \<Longrightarrow> p + 255 * q + r = N \<Longrightarrow> 4 \<le> r \<Longrightarrow> r \<le> 255
         \<Longrightarrow> length out + 4 * q < 8292 \<Longrightarrow>
         greedyLoop b p 0 0 out
           = Inr (0, 0, out @ concat (replicate q (emitMatch b 0 0 255 k)) @ emitMatch b 0 0 r k)"
proof (induction q arbitrary: p out)
  case 0
  then have "N - p = r" by simp
  with 0 have f: "findLongestMatch b p = (r, k)" using fz [of p] by (simp add: min_def)
  from 0 have "p < N" "\<not> p + r < N" by simp_all
  with 0 show ?case
    by (simp add: greedyLoop_unfold [of b p] greedyLoop_unfold [of b N] f len)
next
  case (Suc q)
  then have "255 \<le> N - p" "p + 4 \<le> N" by simp_all
  with Suc.prems have f: "findLongestMatch b p = (255, k)" using fz [of p] by (simp add: min_def)
  from Suc.prems have "k < p + 255" "p + 255 + 255 * q + r = N"
    "length (out @ emitMatch b 0 0 255 k) + 4 * q < 8292"
    by (simp_all add: length_full_match)
  note ih = Suc.IH [OF this(1,2) Suc.prems(3,4) this(3)]
  from Suc.prems have "p < N" "length out < 8292" by simp_all
  then show ?case
    by (simp add: greedyLoop_unfold [of b p] f len ih)
qed

subsection \<open>Pass 1 over a run of zeros\<close>

text \<open>
  In the zeros of such a buffer the node that pass 1 computes depends only on the
  distance to the end of the buffer, written \<open>255 * q + r\<close> with \<open>1 \<le> r \<le> 255\<close>.
  \<open>zeroCost\<close>, \<open>zeroMatch\<close> and \<open>zeroRun\<close> give \<^verbatim>\<open>totalCost\<close>, \<^verbatim>\<open>matchLength\<close> and (for a
  literal node) \<^verbatim>\<open>literalLength\<close> at that distance; \<open>tailNode\<close> says that the node at
  \<open>j\<close> has these values.
\<close>

definition zeroCost :: "nat \<Rightarrow> nat \<Rightarrow> nat" where
  "zeroCost q r = (if r \<le> 3 then (if q = 0 then r + 1 else r + 4 * q)
                   else if r \<le> 14 then 3 + 4 * q else 4 + 4 * q)"

definition zeroMatch :: "nat \<Rightarrow> nat \<Rightarrow> nat" where
  "zeroMatch q r = (if r \<le> 3 \<or> r = 15 then 0 else if q = 0 then r else 255)"

definition zeroRun :: "nat \<Rightarrow> nat" where
  "zeroRun r = (if r = 15 then 1 else r)"

definition tailNode :: "nat \<Rightarrow> nat \<Rightarrow> OptNode list \<Rightarrow> nat \<Rightarrow> bool" where
  "tailNode N k tbl j =
     (\<forall>q r. 1 \<le> r \<and> r \<le> 255 \<and> j + 255 * q + r = N \<longrightarrow>
        totalCost (tbl ! j) = zeroCost q r
      \<and> matchLength (tbl ! j) = zeroMatch q r
      \<and> (zeroMatch q r \<noteq> 0 \<longrightarrow> matchOffset (tbl ! j) = k)
      \<and> (zeroMatch q r = 0 \<longrightarrow> literalLength (tbl ! j) = zeroRun r))"

lemma decomp_div:
  fixes q r :: nat
  assumes "1 \<le> r" and "r \<le> 255"
  shows "(255 * q + r - 1) div 255 = q"
proof -
  from assms have "255 * q + r - 1 = (r - 1) + q * 255" by simp
  moreover from assms have "(r - 1) div 255 = 0" by simp
  ultimately show ?thesis by (simp only: div_mult_self3)
qed

lemma decomp_unique:
  fixes q r q' r' :: nat
  assumes "1 \<le> r" "r \<le> 255" "1 \<le> r'" "r' \<le> 255" "255 * q + r = 255 * q' + r'"
  shows "q = q' \<and> r = r'"
proof -
  from decomp_div [OF assms(1,2), of q] decomp_div [OF assms(3,4), of q'] assms(5)
  have "q = q'" by simp
  with assms(5) show ?thesis by simp
qed

lemma decomp_exists:
  fixes d :: nat
  assumes "0 < d"
  shows "\<exists>q r. 1 \<le> r \<and> r \<le> 255 \<and> 255 * q + r = d"
proof -
  have "255 * ((d - 1) div 255) + (d - 1) mod 255 = d - 1" by (rule mult_div_mod_eq)
  with assms have "255 * ((d - 1) div 255) + ((d - 1) mod 255 + 1) = d" by linarith
  moreover have "(d - 1) mod 255 < 255" by (rule mod_less_divisor) simp
  then have "(d - 1) mod 255 + 1 \<le> 255" "1 \<le> (d - 1) mod 255 + 1" by linarith+
  ultimately show ?thesis by blast
qed

lemma tailNodeD:
  assumes "tailNode N k tbl j" and "j + 255 * q + r = N" and "1 \<le> r" and "r \<le> 255"
  shows "totalCost (tbl ! j) = zeroCost q r"
    and "matchLength (tbl ! j) = zeroMatch q r"
    and "zeroMatch q r \<noteq> 0 \<Longrightarrow> matchOffset (tbl ! j) = k"
    and "zeroMatch q r = 0 \<Longrightarrow> literalLength (tbl ! j) = zeroRun r"
  using assms unfolding tailNode_def by blast+

lemma tail_literal:
  assumes len: "length b = N"
    and above: "\<forall>j. i < j \<and> j < N \<longrightarrow> tailNode N k tbl j"
    and qr: "i + 255 * q + r = N" "1 \<le> r" "r \<le> 255"
  shows "litCost b tbl i
           = (if r = 1 then (if q = 0 then 2 else 1 + zeroCost (q - 1) 255)
              else 1 + zeroCost q (r - 1))"
    and "litLen b tbl i
           = (if r = 1 then 1 else if zeroMatch q (r - 1) \<noteq> 0 then 1 else zeroRun (r - 1) + 1)"
proof -
  consider (last) "r = 1" "q = 0" | (wrap) "r = 1" "0 < q" | (inner) "2 \<le> r"
    using qr(2) by linarith
  then have "litCost b tbl i
           = (if r = 1 then (if q = 0 then 2 else 1 + zeroCost (q - 1) 255)
              else 1 + zeroCost q (r - 1))
    \<and> litLen b tbl i
           = (if r = 1 then 1 else if zeroMatch q (r - 1) \<noteq> 0 then 1 else zeroRun (r - 1) + 1)"
  proof cases
    case last
    with qr have "i = N - 1" by simp
    with last len show ?thesis by (simp add: litCost_def litLen_def)
  next
    case wrap
    with qr have ne: "i \<noteq> N - 1" and lt: "i < i + 1" "i + 1 < N" by simp_all
    from wrap qr have d: "i + 1 + 255 * (q - 1) + 255 = N" by simp
    from above lt have t: "tailNode N k tbl (i + 1)" by blast
    note n = tailNodeD [OF t d]
    have m: "zeroMatch (q - 1) 255 \<noteq> 0" by (simp add: zeroMatch_def)
    from n(2) m have "matchLength (tbl ! (i + 1)) \<noteq> 0" by simp
    with ne wrap len n(1) show ?thesis by (simp add: litCost_def litLen_def)
  next
    case inner
    with qr have ne: "i \<noteq> N - 1" and lt: "i < i + 1" "i + 1 < N" by simp_all
    from inner qr have d: "i + 1 + 255 * q + (r - 1) = N" and r1: "1 \<le> r - 1" "r - 1 \<le> 255"
      by simp_all
    from above lt have t: "tailNode N k tbl (i + 1)" by blast
    note n = tailNodeD [OF t d r1]
    show ?thesis
    proof (cases "zeroMatch q (r - 1) = 0")
      case True
      from n(4) [OF True] have ll: "literalLength (tbl ! (i + 1)) = zeroRun (r - 1)" .
      from True r1 have "zeroRun (r - 1) \<le> 3"
        by (auto simp: zeroMatch_def zeroRun_def split: if_splits)
      with ll have "literalLength (tbl ! (i + 1)) \<noteq> 255"
        "literalLength (tbl ! (i + 1)) + 1 \<noteq> 15" by simp_all
      with ne inner len n(1,2) True ll show ?thesis by (simp add: litCost_def litLen_def)
    next
      case False
      with n(2) have "matchLength (tbl ! (i + 1)) \<noteq> 0" by simp
      with ne inner len n(1) False show ?thesis by (simp add: litCost_def litLen_def)
    qed
  qed
  then show "litCost b tbl i
           = (if r = 1 then (if q = 0 then 2 else 1 + zeroCost (q - 1) 255)
              else 1 + zeroCost q (r - 1))"
    and "litLen b tbl i
           = (if r = 1 then 1 else if zeroMatch q (r - 1) \<noteq> 0 then 1 else zeroRun (r - 1) + 1)"
    by simp_all
qed

lemma tail_match:
  assumes len: "length b = N"
    and fz: "\<And>p. k < p \<Longrightarrow> p + 4 \<le> N \<Longrightarrow> findLongestMatch b p = (min 255 (N - p), k)"
    and t0: "totalCost (tbl ! N) = 0"
    and above: "\<forall>j. i < j \<and> j < N \<longrightarrow> tailNode N k tbl j"
    and ki: "k < i"
    and qr: "i + 255 * q + r = N" "1 \<le> r" "r \<le> 255"
  shows "findLongestMatch b i
           = (if q = 0 \<and> r \<le> 3 then (0, 0) else (if q = 0 then r else 255, k))"
    and "matchCost b tbl i
           = (if q = 0 \<and> r \<le> 3 then 16384
              else if q = 0 then 3 + (if 15 \<le> r then 1 else 0)
              else zeroCost (q - 1) r + 4)"
proof -
  consider (none) "q = 0" "r \<le> 3" | (rest) "q = 0" "4 \<le> r" | (full) "0 < q"
    by linarith
  then have "findLongestMatch b i
           = (if q = 0 \<and> r \<le> 3 then (0, 0) else (if q = 0 then r else 255, k))
    \<and> matchCost b tbl i
           = (if q = 0 \<and> r \<le> 3 then 16384
              else if q = 0 then 3 + (if 15 \<le> r then 1 else 0)
              else zeroCost (q - 1) r + 4)"
  proof cases
    case none
    with qr len have "length b - i < 4" by simp
    from findLongestMatch_short [OF this] none show ?thesis by (simp add: matchCost_def)
  next
    case rest
    with qr have "i + 4 \<le> N" and "N - i = r" and "i + r = N" by simp_all
    with fz [OF ki this(1)] qr(3) have f: "findLongestMatch b i = (r, k)" by (simp add: min_def)
    from rest f t0 \<open>i + r = N\<close> show ?thesis by (simp add: matchCost_def)
  next
    case full
    with qr have "i + 4 \<le> N" and "255 \<le> N - i" by simp_all
    with fz [OF ki this(1)] have f: "findLongestMatch b i = (255, k)" by (simp add: min_def)
    from full qr have d: "i + 255 + 255 * (q - 1) + r = N" and lt: "i < i + 255" "i + 255 < N"
      by simp_all
    from above lt have t: "tailNode N k tbl (i + 255)" by blast
    note n = tailNodeD [OF t d qr(2,3)]
    from full f n(1) show ?thesis by (simp add: matchCost_def)
  qed
  then show "findLongestMatch b i
           = (if q = 0 \<and> r \<le> 3 then (0, 0) else (if q = 0 then r else 255, k))"
    and "matchCost b tbl i
           = (if q = 0 \<and> r \<le> 3 then 16384
              else if q = 0 then 3 + (if 15 \<le> r then 1 else 0)
              else zeroCost (q - 1) r + 4)"
    by simp_all
qed

text \<open>The recurrence of pass 1, on the closed forms.\<close>

lemma zero_choice:
  fixes q r :: nat
  assumes "1 \<le> r" and "r \<le> 255"
    and LC_def: "LC = (if r = 1 then (if q = 0 then 2 else 1 + zeroCost (q - 1) 255)
                  else 1 + zeroCost q (r - 1))"
    and MC_def: "MC = (if q = 0 \<and> r \<le> 3 then 16384
                  else if q = 0 then 3 + (if 15 \<le> r then 1 else 0)
                  else zeroCost (q - 1) r + 4)"
  shows "(MC < LC) = (zeroMatch q r \<noteq> 0)"
    and "zeroCost q r = (if MC < LC then MC else LC)"
proof -
  have "(MC < LC) = (zeroMatch q r \<noteq> 0) \<and> zeroCost q r = (if MC < LC then MC else LC)"
  proof (cases q)
    case 0
    with assms(1,2) show ?thesis
      unfolding LC_def MC_def zeroCost_def zeroMatch_def by (auto split: if_splits)
  next
    case (Suc q')
    show ?thesis
    proof (cases q')
      case 0
      with Suc assms(1,2) show ?thesis
        unfolding LC_def MC_def zeroCost_def zeroMatch_def by (auto split: if_splits)
    next
      case (Suc q'')
      with \<open>q = Suc q'\<close> assms(1,2) show ?thesis
        unfolding LC_def MC_def zeroCost_def zeroMatch_def by (auto split: if_splits)
    qed
  qed
  then show "(MC < LC) = (zeroMatch q r \<noteq> 0)"
    and "zeroCost q r = (if MC < LC then MC else LC)" by simp_all
qed

lemma zero_run:
  assumes "1 \<le> r" and "zeroMatch q r = 0"
  shows "(if r = 1 then 1 else if zeroMatch q (r - 1) \<noteq> 0 then 1 else zeroRun (r - 1) + 1)
           = zeroRun r"
  using assms by (auto simp: zeroMatch_def zeroRun_def split: if_splits)

lemma optStep_tail:
  assumes len: "length b = N"
    and fz: "\<And>p. k < p \<Longrightarrow> p + 4 \<le> N \<Longrightarrow> findLongestMatch b p = (min 255 (N - p), k)"
    and lt: "length tbl = N + 1" and t0: "totalCost (tbl ! N) = 0"
    and ki: "k < i" and iN: "i < N"
    and above: "\<forall>j. i < j \<and> j < N \<longrightarrow> tailNode N k tbl j"
  shows "\<exists>n. optStep b i tbl = Inr (tbl[i := n]) \<and> tailNode N k (tbl[i := n]) i"
proof -
  from iN have "0 < N - i" by simp
  from decomp_exists [OF this] obtain q r where
    r: "1 \<le> r" "r \<le> 255" and d0: "255 * q + r = N - i" by blast
  from d0 iN have d: "i + 255 * q + r = N" by simp
  note lit = tail_literal [OF len above d r]
  note mat = tail_match [OF len fz t0 above ki d r]
  note ch = zero_choice [OF r lit(1) mat(2)]
  let ?n = "\<lparr>totalCost = zeroCost q r, matchLength = zeroMatch q r,
             matchOffset = (if fst (findLongestMatch b i) < 4 then matchOffset (tbl ! i) else k),
             literalLength = litLen b tbl i\<rparr>"
  have sk: "snd (findLongestMatch b i) = k" if "\<not> fst (findLongestMatch b i) < 4"
    using that by (simp add: mat(1) split: if_splits)
  have step: "optStep b i tbl = Inr (tbl[i := ?n])"
  proof (cases "zeroMatch q r = 0")
    case True
    with ch(1) have c: "\<not> matchCost b tbl i < litCost b tbl i" by simp
    from c ch(2) have e: "litCost b tbl i = zeroCost q r" by simp
    show ?thesis
    proof (cases "fst (findLongestMatch b i) < 4")
      case lt: True
      with c e True show ?thesis by (simp add: optStep_unfold)
    next
      case ge: False
      with c e True sk [OF ge] show ?thesis by (simp add: optStep_unfold)
    qed
  next
    case False
    with ch(1) have c: "matchCost b tbl i < litCost b tbl i" by simp
    from c ch(2) have e: "matchCost b tbl i = zeroCost q r" by simp
    from False have "\<not> (q = 0 \<and> r \<le> 3)" by (auto simp: zeroMatch_def)
    with mat(1) have f: "findLongestMatch b i = (if q = 0 then r else 255, k)" by simp
    from False have "zeroMatch q r = (if q = 0 then r else 255)" "4 \<le> zeroMatch q r"
      by (auto simp: zeroMatch_def split: if_splits)
    with f have f': "findLongestMatch b i = (zeroMatch q r, k)" by simp
    from c e \<open>4 \<le> zeroMatch q r\<close> show ?thesis by (simp add: optStep_unfold f')
  qed
  have "tailNode N k (tbl[i := ?n]) i"
    unfolding tailNode_def
  proof (intro allI impI)
    fix q' r'
    assume a: "1 \<le> r' \<and> r' \<le> 255 \<and> i + 255 * q' + r' = N"
    with d have "255 * q + r = 255 * q' + r'" by simp
    from decomp_unique [OF r _ _ this] a have e: "q' = q" "r' = r" by simp_all
    from iN lt have nth: "tbl[i := ?n] ! i = ?n" by simp
    have "\<not> fst (findLongestMatch b i) < 4" if "zeroMatch q r \<noteq> 0"
      using that r by (auto simp: mat(1) zeroMatch_def split: if_splits)
    then have off: "zeroMatch q r \<noteq> 0 \<Longrightarrow> matchOffset ?n = k" by simp
    have run: "zeroMatch q r = 0 \<Longrightarrow> literalLength ?n = zeroRun r"
      using zero_run [OF r(1), of q] by (simp add: lit(2))
    from off run show "totalCost (tbl[i := ?n] ! i) = zeroCost q' r'
      \<and> matchLength (tbl[i := ?n] ! i) = zeroMatch q' r'
      \<and> (zeroMatch q' r' \<noteq> 0 \<longrightarrow> matchOffset (tbl[i := ?n] ! i) = k)
      \<and> (zeroMatch q' r' = 0 \<longrightarrow> literalLength (tbl[i := ?n] ! i) = zeroRun r')"
      unfolding nth e by simp
  qed
  with step show ?thesis by blast
qed

lemma tailNode_cong: "tbl' ! j = tbl ! j \<Longrightarrow> tailNode N k tbl' j = tailNode N k tbl j"
  by (simp add: tailNode_def)

lemma optPass1_tail:
  assumes len: "length b = N"
    and fz: "\<And>p. k < p \<Longrightarrow> p + 4 \<le> N \<Longrightarrow> findLongestMatch b p = (min 255 (N - p), k)"
  shows "k < c \<Longrightarrow> c \<le> N \<Longrightarrow> length tbl = N + 1 \<Longrightarrow> totalCost (tbl ! N) = 0
         \<Longrightarrow> \<forall>j. c \<le> j \<and> j < N \<longrightarrow> tailNode N k tbl j
         \<Longrightarrow> \<exists>tbl'. optPass1 b c tbl = optPass1 b (Suc k) tbl'
                  \<and> length tbl' = N + 1
                  \<and> (\<forall>j. k < j \<and> j < N \<longrightarrow> tailNode N k tbl' j)
                  \<and> (\<forall>j\<le>k. tbl' ! j = tbl ! j)"
proof (induction c arbitrary: tbl)
  case 0
  from "0.prems"(1) have False by (simp only: not_less_zero)
  then show ?case by (rule FalseE)
next
  case (Suc c)
  show ?case
  proof (cases "c = k")
    case True
    from Suc.prems(5) True have "\<forall>j. k < j \<and> j < N \<longrightarrow> tailNode N k tbl j"
      by (simp add: Suc_le_eq)
    with Suc.prems(3) True show ?thesis by blast
  next
    case False
    with Suc.prems(1,2) have kc: "k < c" and cN: "c < N" "c \<le> N" by simp_all
    from Suc.prems(5) have above: "\<forall>j. c < j \<and> j < N \<longrightarrow> tailNode N k tbl j"
      by (simp add: Suc_le_eq)
    from optStep_tail [OF len fz Suc.prems(3,4) kc cN(1) above] obtain n where
      st: "optStep b c tbl = Inr (tbl[c := n])" and tn: "tailNode N k (tbl[c := n]) c" by blast
    let ?t = "tbl[c := n]"
    have l: "length ?t = N + 1" using Suc.prems(3) by simp
    have z: "totalCost (?t ! N) = 0" using Suc.prems(4) cN by simp
    have a: "\<forall>j. c \<le> j \<and> j < N \<longrightarrow> tailNode N k ?t j"
    proof (intro allI impI)
      fix j assume j: "c \<le> j \<and> j < N"
      show "tailNode N k ?t j"
      proof (cases "j = c")
        case True
        with tn show ?thesis by simp
      next
        case False
        with j have "Suc c \<le> j \<and> j < N" by simp
        with Suc.prems(5) have old: "tailNode N k tbl j" by blast
        from False have "?t ! j = tbl ! j" by simp
        from tailNode_cong [OF this] old show ?thesis by simp
      qed
    qed
    from Suc.IH [OF kc cN(2) l z a] obtain tbl' where
      r: "optPass1 b c ?t = optPass1 b (Suc k) tbl'" "length tbl' = N + 1"
        "\<forall>j. k < j \<and> j < N \<longrightarrow> tailNode N k tbl' j" "\<forall>j\<le>k. tbl' ! j = ?t ! j" by blast
    from r(4) kc have "\<forall>j\<le>k. tbl' ! j = tbl ! j" by simp
    moreover from st r(1) have "optPass1 b (Suc c) tbl = optPass1 b (Suc k) tbl'" by simp
    ultimately show ?thesis using r(2,3) by blast
  qed
qed

text \<open>Pass 1 over the bytes in front of the zeros, where there is no match.\<close>

lemma optPass1_head:
  assumes len: "length b = N"
    and nm: "\<And>p. p \<le> k \<Longrightarrow> findLongestMatch b p = (0, 0)" and kN: "k + 1 < N"
  shows "c \<le> Suc k \<Longrightarrow> length tbl = N + 1 \<Longrightarrow> matchLength (tbl ! c) = 0
         \<Longrightarrow> literalLength (tbl ! c) = l \<Longrightarrow> l + c < 255
         \<Longrightarrow> totalCost (tbl ! c) + 2 * c \<le> 16000
         \<Longrightarrow> \<exists>tbl'. optPass1 b c tbl = Inr tbl' \<and> length tbl' = N + 1
                  \<and> (\<forall>j\<ge>c. tbl' ! j = tbl ! j)
                  \<and> matchLength (tbl' ! 0) = 0 \<and> literalLength (tbl' ! 0) = l + c"
proof (induction c arbitrary: tbl l)
  case 0
  then show ?case by simp
next
  case (Suc c)
  from Suc.prems have ck: "c \<le> k" by simp
  with kN len have ne: "c \<noteq> length b - 1" by simp
  from Suc.prems have l255: "l \<noteq> 255" by simp
  have lc: "litCost b tbl c = (if l + 1 = 15 then 2 else 1) + totalCost (tbl ! Suc c)"
    using ne l255 Suc.prems(3,4) by (simp add: litCost_def)
  have ll: "litLen b tbl c = l + 1"
    using ne l255 Suc.prems(3,4) by (simp add: litLen_def)
  have mc: "matchCost b tbl c = 16384" by (simp add: matchCost_def nm [OF ck])
  let ?n = "\<lparr>totalCost = litCost b tbl c, matchLength = 0,
             matchOffset = matchOffset (tbl ! c), literalLength = l + 1\<rparr>"
  let ?t = "tbl[c := ?n]"
  from lc mc Suc.prems(6) have st: "optStep b c tbl = Inr ?t"
    by (simp add: optStep_unfold nm [OF ck] ll)
  from ck kN Suc.prems(2) have nth: "?t ! c = ?n" by simp
  have p: "c \<le> Suc k" "length ?t = N + 1" "matchLength (?t ! c) = 0"
    "literalLength (?t ! c) = l + 1" "l + 1 + c < 255" "totalCost (?t ! c) + 2 * c \<le> 16000"
    using ck Suc.prems lc unfolding nth by simp_all
  from Suc.IH [OF p] obtain tbl' where
    r: "optPass1 b c ?t = Inr tbl'" "length tbl' = N + 1" "\<forall>j\<ge>c. tbl' ! j = ?t ! j"
      "matchLength (tbl' ! 0) = 0" "literalLength (tbl' ! 0) = l + 1 + c" by blast
  from r(3) have "\<forall>j\<ge>Suc c. tbl' ! j = tbl ! j" by simp
  with r st show ?case by (intro exI [of _ tbl']) simp
qed

text \<open>Pass 2 over the zeros: matches of 255, then the rest.\<close>

lemma optEmit_zero_chain:
  assumes len: "length b = N"
    and tl: "\<forall>j. k < j \<and> j < N \<longrightarrow> tailNode N k tbl j"
  shows "k < i \<Longrightarrow> i + 255 * q + r = N \<Longrightarrow> 4 \<le> r \<Longrightarrow> r \<le> 255 \<Longrightarrow> r \<noteq> 15
         \<Longrightarrow> optEmit b tbl i 0 0 out
             = Some (0, 0, out @ concat (replicate q (emitMatch b 0 0 255 k))
                               @ emitMatch b 0 0 r k)"
proof (induction q arbitrary: i out)
  case 0
  then have iN: "i < N" and e: "i + r = N" by simp_all
  from tl 0(1) iN have t: "tailNode N k tbl i" by blast
  from 0 have d: "i + 255 * 0 + r = N" and r1: "1 \<le> r" by simp_all
  note n = tailNodeD [OF t d r1 0(4)]
  from 0 have m: "zeroMatch 0 r = r" by (simp add: zeroMatch_def)
  from n(2,3) m 0(3) have f: "matchLength (tbl ! i) = r" "matchOffset (tbl ! i) = k" by simp_all
  have "optEmit b tbl i 0 0 out = optEmit b tbl N 0 0 (out @ emitMatch b 0 0 r k)"
    using iN len f 0(3) e by (subst optEmit.simps) simp
  also have "\<dots> = Some (0, 0, out @ emitMatch b 0 0 r k)"
    using len by (subst optEmit.simps) simp
  finally show ?case by simp
next
  case (Suc q)
  then have iN: "i < N" by simp
  from tl Suc.prems(1) iN have t: "tailNode N k tbl i" by blast
  from Suc.prems have r1: "1 \<le> r" by simp
  note n = tailNodeD [OF t Suc.prems(2) r1 Suc.prems(4)]
  from Suc.prems have m: "zeroMatch (Suc q) r = 255" by (simp add: zeroMatch_def)
  from n(2,3) m have f: "matchLength (tbl ! i) = 255" "matchOffset (tbl ! i) = k" by simp_all
  from Suc.prems have "k < i + 255" "i + 255 + 255 * q + r = N" by simp_all
  note ih = Suc.IH [OF this Suc.prems(3,4,5)]
  have "optEmit b tbl i 0 0 out = optEmit b tbl (i + 255) 0 0 (out @ emitMatch b 0 0 255 k)"
    using iN len f by (subst optEmit.simps) simp
  then show ?case by (simp add: ih)
qed

subsection \<open>Two inputs of 8184 bytes\<close>

text \<open>
  The encoders on 8184 zeros, and on the bytes 1 to 8 followed by 8176 zeros. The
  greedy encoder takes a match as soon as there is one. Pass 1 of the optimal encoder
  takes a literal where its two costs are equal, which they are 15 bytes before the end
  of a chain of matches of 255.
\<close>

lemma zeros_match:
  assumes "0 < p" and "p + 4 \<le> 8184"
  shows "findLongestMatch (replicate 8184 0) p = (min 255 (8184 - p), 0)"
  using findLongestMatch_zeros [of "[]" p 8184] assms by simp

lemma zeros_first: "findLongestMatch (replicate 8184 0) 0 = (0, 0)"
  by (rule findLongestMatch_none) simp

lemma emit_zeros:
  "emitMatch (replicate 8184 0) 0 1 255 0 = [0x1f, 0, 236, 0, 0]"
  "emitMatch (replicate 8184 0) 0 (Suc 0) 255 0 = [0x1f, 0, 236, 0, 0]"
  "emitMatch (replicate 8184 0) 0 0 255 0 = [0x0f, 236, 0, 0]"
  "emitMatch (replicate 8184 0) 0 0 23 0 = [0x0f, 4, 0, 0]"
  "emitLiterals (replicate 8184 0) 0 0 EOD_MATCH_TOKEN = [0x0f, 254]"
  by (simp_all add: emitMatch_def emitLiterals_def mixedLengthsOf_def)

lemma zeros_greedy:
  "compressBufferGreedily (replicate 8184 0)
     = Inr ([0x66, 0x1f, 0, 236, 0, 0] @ concat (replicate 31 [0x0f, 236, 0, 0])
            @ [0x0f, 4, 0, 0, 0x0f, 254])"
proof -
  let ?b = "replicate 8184 (0 :: byte)"
  have len: "length ?b = 8184" by simp
  have s0: "greedyLoop ?b 0 0 0 [0x66] = greedyLoop ?b 1 0 1 [0x66]"
    by (subst greedyLoop_unfold) (simp add: zeros_first)
  have "findLongestMatch ?b 1 = (255, 0)" using zeros_match [of 1] by simp
  then have s1: "greedyLoop ?b 1 0 1 [0x66]
                   = greedyLoop ?b 256 0 0 ([0x66] @ emitMatch ?b 0 1 255 0)"
    by (subst greedyLoop_unfold) simp
  have s2: "greedyLoop ?b 256 0 0 ([0x66] @ emitMatch ?b 0 1 255 0)
              = Inr (0, 0, ([0x66] @ emitMatch ?b 0 1 255 0)
                           @ concat (replicate 31 (emitMatch ?b 0 0 255 0))
                           @ emitMatch ?b 0 0 23 0)"
    by (rule greedyLoop_zero_chain [OF len zeros_match]) (simp_all add: length_emitMatch)
  show ?thesis
    unfolding compressBufferGreedily_def s0 s1 s2 by (simp add: emit_zeros)
qed


lemma zeros_optimal:
  "compressBufferOptimally (replicate 8184 0)
     = Some (Inr ([0x66, 0x1f, 0, 236, 0, 0] @ concat (replicate 31 [0x0f, 236, 0, 0])
                  @ [0x0f, 4, 0, 0, 0x0f, 254]))"
proof -
  let ?b = "replicate 8184 (0 :: byte)"
  let ?init = "replicate (length ?b + 1) zeroNode"
  have len: "length ?b = 8184" by simp
  have "\<exists>tbl'. optPass1 ?b 8184 ?init = optPass1 ?b (Suc 0) tbl'
                  \<and> length tbl' = 8184 + 1
                  \<and> (\<forall>j. 0 < j \<and> j < 8184 \<longrightarrow> tailNode 8184 0 tbl' j)
                  \<and> (\<forall>j\<le>0. tbl' ! j = ?init ! j)"
    by (rule optPass1_tail [OF len zeros_match]) auto
  then obtain t1 where p1: "optPass1 ?b 8184 ?init = optPass1 ?b (Suc 0) t1"
    and l1: "length t1 = 8184 + 1"
    and tl1: "\<forall>j. 0 < j \<and> j < 8184 \<longrightarrow> tailNode 8184 0 t1 j" by blast
  \<comment> \<open>the node at 1 is a match of 255 with cost 132; the node at 0 becomes a literal\<close>
  have "tailNode 8184 0 t1 1" using tl1 by simp
  from tailNodeD [OF this, of 32 23]
  have n1: "totalCost (t1 ! 1) = 132" "matchLength (t1 ! 1) = 255"
    by (simp_all add: zeroCost_def zeroMatch_def)
  have lc: "litCost ?b t1 0 = 133" "litLen ?b t1 0 = 1" "matchCost ?b t1 0 = 16384"
    using n1 by (simp_all add: litCost_def litLen_def matchCost_def zeros_first)
  let ?n0 = "\<lparr>totalCost = 133, matchLength = 0, matchOffset = matchOffset (t1 ! 0),
              literalLength = 1\<rparr>"
  let ?t = "t1[0 := ?n0]"
  have st: "optStep ?b 0 t1 = Inr ?t"
    by (simp add: optStep_unfold lc zeros_first)
  have "optPass1 ?b (Suc 0) t1 = Inr ?t" by (simp add: st)
  with p1 have p2: "optPass1 ?b 8184 ?init = Inr ?t" by (simp only:)
  have tl: "\<forall>j. 0 < j \<and> j < 8184 \<longrightarrow> tailNode 8184 0 ?t j"
  proof (intro allI impI)
    fix j :: nat assume j: "0 < j \<and> j < 8184"
    then have "?t ! j = t1 ! j" by simp
    from tailNode_cong [OF this] tl1 j show "tailNode 8184 0 ?t j" by simp
  qed
  have n0: "matchLength (?t ! 0) = 0" "literalLength (?t ! 0) = 1" using l1 by simp_all
  have m1: "matchLength (?t ! 1) = 255" "matchOffset (?t ! 1) = 0"
    using tailNodeD [OF tl [rule_format, of 1], of 32 23] by (simp_all add: zeroMatch_def)
  have e0: "optEmit ?b ?t 0 0 0 [0x66] = optEmit ?b ?t 1 0 1 [0x66]"
    by (subst optEmit.simps) (simp only: n0 len, simp)
  have e1: "optEmit ?b ?t 1 0 1 [0x66]
              = optEmit ?b ?t 256 0 0 ([0x66] @ emitMatch ?b 0 1 255 0)"
    by (subst optEmit.simps) (simp only: m1 len, simp)
  have e2: "optEmit ?b ?t 256 0 0 ([0x66] @ emitMatch ?b 0 1 255 0)
              = Some (0, 0, ([0x66] @ emitMatch ?b 0 1 255 0)
                            @ concat (replicate 31 (emitMatch ?b 0 0 255 0))
                            @ emitMatch ?b 0 0 23 0)"
    by (rule optEmit_zero_chain [OF len tl]) simp_all
  have p2': "optPass1 ?b (length ?b) ?init = Inr ?t" using p2 by simp
  show ?thesis
    unfolding compressBufferOptimally_def p2' sum.case e0 e1 e2 by (simp add: emit_zeros)
qed

text \<open>The bytes 1 to 8 followed by 8176 zeros.\<close>

lemma ramp_match:
  assumes "8 < p" and "p + 4 \<le> 8184"
  shows "findLongestMatch ([1, 2, 3, 4, 5, 6, 7, 8] @ replicate 8176 0) p
           = (min 255 (8184 - p), 8)"
  using findLongestMatch_zeros [of "[1, 2, 3, 4, 5, 6, 7, 8]" p 8176] assms by simp

lemma ramp_first:
  assumes "p \<le> 8"
  shows "findLongestMatch ([1, 2, 3, 4, 5, 6, 7, 8] @ replicate 8176 0) p = (0, 0)"
  using findLongestMatch_prefix [of "[1, 2, 3, 4, 5, 6, 7, 8]" p 8176] assms by simp

lemma replicate_two: "replicate 2 x = [x, x]"
  by (simp add: numeral_2_eq_2)

lemma emit_ramp:
  "emitMatch ([1, 2, 3, 4, 5, 6, 7, 8] @ replicate 8176 0) 0 9 255 8
     = [0x9f, 1, 2, 3, 4, 5, 6, 7, 8, 0, 236, 8, 0]"
  "emitMatch ([1, 2, 3, 4, 5, 6, 7, 8] @ replicate 8176 0) 0 10 255 8
     = [0xaf, 1, 2, 3, 4, 5, 6, 7, 8, 0, 0, 236, 8, 0]"
  "emitMatch ([1, 2, 3, 4, 5, 6, 7, 8] @ replicate 8176 0) 0 0 255 8 = [0x0f, 236, 8, 0]"
  "emitMatch ([1, 2, 3, 4, 5, 6, 7, 8] @ replicate 8176 0) 0 0 15 8 = [0x0b, 8, 0]"
  "emitMatch ([1, 2, 3, 4, 5, 6, 7, 8] @ replicate 8176 0) 0 0 14 8 = [0x0a, 8, 0]"
  "emitLiterals ([1, 2, 3, 4, 5, 6, 7, 8] @ replicate 8176 0) 0 0 EOD_MATCH_TOKEN = [0x0f, 254]"
  by (simp_all add: emitMatch_def emitLiterals_def mixedLengthsOf_def replicate_two)

lemma ramp_greedy:
  "compressBufferGreedily ([1, 2, 3, 4, 5, 6, 7, 8] @ replicate 8176 0)
     = Inr ([0x66, 0x9f, 1, 2, 3, 4, 5, 6, 7, 8, 0, 236, 8, 0]
            @ concat (replicate 31 [0x0f, 236, 8, 0]) @ [0x0b, 8, 0, 0x0f, 254])"
proof -
  let ?b = "[1, 2, 3, 4, 5, 6, 7, 8] @ replicate 8176 (0 :: byte)"
  have len: "length ?b = 8184" by simp
  have "greedyLoop ?b 0 0 0 [0x66]
          = greedyLoop ?b (0 + 9) (if (0::nat) = 0 \<and> (0::nat) < 9 then 0 else 0) (0 + 9) [0x66]"
    by (rule greedyLoop_literals [where k = 8, OF ramp_first]) simp_all
  then have s0: "greedyLoop ?b 0 0 0 [0x66] = greedyLoop ?b 9 0 9 [0x66]" by simp
  have "findLongestMatch ?b 9 = (255, 8)" using ramp_match [of 9] by simp
  then have s1: "greedyLoop ?b 9 0 9 [0x66]
                   = greedyLoop ?b 264 0 0 ([0x66] @ emitMatch ?b 0 9 255 8)"
    by (subst greedyLoop_unfold) simp
  have s2: "greedyLoop ?b 264 0 0 ([0x66] @ emitMatch ?b 0 9 255 8)
              = Inr (0, 0, ([0x66] @ emitMatch ?b 0 9 255 8)
                           @ concat (replicate 31 (emitMatch ?b 0 0 255 8))
                           @ emitMatch ?b 0 0 15 8)"
    by (rule greedyLoop_zero_chain [OF len ramp_match]) (simp_all add: length_emitMatch)
  have "compressBufferGreedily ?b
          = Inr ((([0x66] @ emitMatch ?b 0 9 255 8)
                  @ concat (replicate 31 (emitMatch ?b 0 0 255 8)) @ emitMatch ?b 0 0 15 8)
                 @ emitLiterals ?b 0 0 EOD_MATCH_TOKEN)"
    unfolding compressBufferGreedily_def s0 s1 s2 by (simp only: sum.case prod.case)
  then show ?thesis unfolding emit_ramp by simp
qed

lemma ramp_optimal:
  "compressBufferOptimally ([1, 2, 3, 4, 5, 6, 7, 8] @ replicate 8176 0)
     = Some (Inr ([0x66, 0xaf, 1, 2, 3, 4, 5, 6, 7, 8, 0, 0, 236, 8, 0]
                  @ concat (replicate 31 [0x0f, 236, 8, 0]) @ [0x0a, 8, 0, 0x0f, 254]))"
proof -
  let ?b = "[1, 2, 3, 4, 5, 6, 7, 8] @ replicate 8176 (0 :: byte)"
  let ?init = "replicate (length ?b + 1) zeroNode"
  have len: "length ?b = 8184" by simp
  have "\<exists>tbl'. optPass1 ?b 8184 ?init = optPass1 ?b (Suc 8) tbl'
                  \<and> length tbl' = 8184 + 1
                  \<and> (\<forall>j. 8 < j \<and> j < 8184 \<longrightarrow> tailNode 8184 8 tbl' j)
                  \<and> (\<forall>j\<le>8. tbl' ! j = ?init ! j)"
    by (rule optPass1_tail [OF len ramp_match]) auto
  then obtain t1 where p1: "optPass1 ?b 8184 ?init = optPass1 ?b (Suc 8) t1"
    and l1: "length t1 = 8184 + 1"
    and tl1: "\<forall>j. 8 < j \<and> j < 8184 \<longrightarrow> tailNode 8184 8 t1 j" by blast
  \<comment> \<open>the node at 9, 15 bytes before the end of a chain of matches, is a literal\<close>
  have "tailNode 8184 8 t1 9" using tl1 by simp
  from tailNodeD [OF this, of 32 15]
  have n9: "totalCost (t1 ! 9) = 132" "matchLength (t1 ! 9) = 0" "literalLength (t1 ! 9) = 1"
    by (simp_all add: zeroCost_def zeroMatch_def zeroRun_def)
  have "\<exists>tbl'. optPass1 ?b 9 t1 = Inr tbl' \<and> length tbl' = 8184 + 1
                  \<and> (\<forall>j\<ge>9. tbl' ! j = t1 ! j)
                  \<and> matchLength (tbl' ! 0) = 0 \<and> literalLength (tbl' ! 0) = 1 + 9"
    by (rule optPass1_head [where k = 8, OF len ramp_first]) (simp_all add: l1 n9)
  then obtain t where p2: "optPass1 ?b 9 t1 = Inr t" and l: "length t = 8184 + 1"
    and same: "\<forall>j\<ge>9. t ! j = t1 ! j"
    and n0: "matchLength (t ! 0) = 0" "literalLength (t ! 0) = 1 + 9" by blast
  have tl: "\<forall>j. 8 < j \<and> j < 8184 \<longrightarrow> tailNode 8184 8 t j"
  proof (intro allI impI)
    fix j :: nat assume j: "8 < j \<and> j < 8184"
    with same have "t ! j = t1 ! j" by simp
    from tailNode_cong [OF this] tl1 j show "tailNode 8184 8 t j" by simp
  qed
  have m10: "matchLength (t ! 10) = 255" "matchOffset (t ! 10) = 8"
    using tailNodeD [OF tl [rule_format, of 10], of 32 14] by (simp_all add: zeroMatch_def)
  have e0: "optEmit ?b t 0 0 0 [0x66] = optEmit ?b t 10 0 10 [0x66]"
    by (subst optEmit.simps) (simp only: n0 len, simp)
  have e1: "optEmit ?b t 10 0 10 [0x66]
              = optEmit ?b t 265 0 0 ([0x66] @ emitMatch ?b 0 10 255 8)"
    by (subst optEmit.simps) (simp only: m10 len, simp)
  have e2: "optEmit ?b t 265 0 0 ([0x66] @ emitMatch ?b 0 10 255 8)
              = Some (0, 0, ([0x66] @ emitMatch ?b 0 10 255 8)
                            @ concat (replicate 31 (emitMatch ?b 0 0 255 8))
                            @ emitMatch ?b 0 0 14 8)"
    by (rule optEmit_zero_chain [OF len tl]) simp_all
  have p2': "optPass1 ?b (length ?b) ?init = Inr t" using p1 p2 by simp
  have "compressBufferOptimally ?b
          = Some (Inr ((([0x66] @ emitMatch ?b 0 10 255 8)
                  @ concat (replicate 31 (emitMatch ?b 0 0 255 8)) @ emitMatch ?b 0 0 14 8)
                 @ emitLiterals ?b 0 0 EOD_MATCH_TOKEN))"
    unfolding compressBufferOptimally_def p2' sum.case e0 e1 e2
    by (simp only: option.case prod.case)
  then show ?thesis unfolding emit_ramp by simp
qed

subsection \<open>The all-zero image\<close>

text \<open>
  Both hole rewrites leave the first 8184 bytes of an all-zero image zero, so with hole
  rewriting the encoders are handed 8184 zeros twice.
\<close>

lemma replicate_update: "(replicate n x)[i := x] = replicate n x"
  by (cases "i < n") (simp_all add: list_eq_iff_nth_eq nth_list_update)

lemma fold_zero: "fold (\<lambda>k buf. buf[p + k := 0]) ks (replicate n 0) = replicate n (0 :: byte)"
  by (induction ks) (simp_all add: replicate_update)

lemma zeroHolesLoop_zeros: "zeroHolesLoop (replicate n 0) p = replicate n 0"
proof (induction "MAX_SIZE - p" arbitrary: p rule: less_induct)
  case less
  show ?case
  proof (cases "p < MAX_SIZE")
    case True
    then have "MAX_SIZE - (p + 128) < MAX_SIZE - p" by simp
    from less.hyps [OF this] True show ?thesis
      by (subst zeroHolesLoop.simps) (simp add: fold_zero)
  next
    case False
    then show ?thesis by (subst zeroHolesLoop.simps) simp
  qed
qed

lemma nth_update_if: "xs[i := x] ! j = (if i = j \<and> i < length xs then x else xs ! j)"
  by (cases "i < length xs") (auto simp: nth_list_update list_update_beyond)

lemma fold_before_zero:
  assumes "\<forall>j<m. buf ! j = (0 :: byte)"
  shows "\<forall>j<m. fold (\<lambda>i buf. buf[p + i := buf ! (p + i - 2)]) ks buf ! j = 0"
  using assms
proof (induction ks arbitrary: buf)
  case Nil
  then show ?case by simp
next
  case (Cons i ks)
  have "\<forall>j<m. buf[p + i := buf ! (p + i - 2)] ! j = 0"
  proof (intro allI impI)
    fix j assume j: "j < m"
    show "buf[p + i := buf ! (p + i - 2)] ! j = 0"
    proof (cases "p + i = j \<and> p + i < length buf")
      case True
      with j have "p + i - 2 < m" by simp
      with Cons.prems True show ?thesis by (simp add: nth_update_if)
    next
      case False
      with Cons.prems j show ?thesis by (auto simp: nth_update_if)
    qed
  qed
  from Cons.IH [OF this] show ?case by simp
qed

lemma fold_after_zero:
  assumes "\<forall>j<m. buf ! j = (0 :: byte)" and "\<forall>i\<in>set ks. p + i + 2 < m"
  shows "\<forall>j<m. fold (\<lambda>i buf. buf[p + i := buf ! (p + i + 2)]) ks buf ! j = 0"
  using assms
proof (induction ks arbitrary: buf)
  case Nil
  then show ?case by simp
next
  case (Cons i ks)
  from Cons.prems(2) have i: "p + i + 2 < m" by simp
  have "\<forall>j<m. buf[p + i := buf ! (p + i + 2)] ! j = 0"
    using Cons.prems(1) i by (auto simp: nth_update_if)
  from Cons.IH [OF this] Cons.prems(2) show ?case by simp
qed

lemma fillHolesLoop_zeros:
  assumes "\<forall>j<8184. buf ! j = (0 :: byte)"
  shows "\<forall>j<8184. fillHolesLoop buf (120 + 128 * k) ! j = 0"
  using assms
proof (induction "64 - k" arbitrary: k buf rule: less_induct)
  case less
  let ?p = "120 + 128 * k"
  show ?case
  proof (cases "?p < MAX_SIZE")
    case True
    then have k: "64 - Suc k < 64 - k" by simp
    let ?after = "fold (\<lambda>i buf. buf[?p + i := buf ! (?p + i + 2)]) (rev [0..<8]) buf"
    let ?before = "fold (\<lambda>i buf. buf[?p + i := buf ! (?p + i - 2)]) [0..<8] buf"
    have b: "\<forall>j<8184. ?before ! j = 0" using less.prems by (rule fold_before_zero)
    have a: "\<forall>j<8184. ?after ! j = 0" if "?p + 8 < MAX_SIZE"
    proof (rule fold_after_zero [OF less.prems])
      from that have "k \<le> 62" by simp
      then have "?p + 9 < 8184" by simp
      then show "\<forall>i\<in>set (rev [0..<8]). ?p + i + 2 < 8184" by auto
    qed
    have n: "?p + 128 = 120 + 128 * Suc k" by simp
    show ?thesis
      using True less.hyps [OF k a] less.hyps [OF k b]
      by (subst fillHolesLoop.simps) (simp only: n Let_def split: if_splits, simp)
  next
    case False
    with less.prems show ?thesis by (subst fillHolesLoop.simps) simp
  qed
qed

lemma fillHoles_zeros:
  assumes "length buf = MAX_SIZE" and "\<forall>j<8184. buf ! j = (0 :: byte)"
  shows "take MIN_SIZE (fillHoles buf) = replicate 8184 0"
proof -
  from fillHolesLoop_zeros [OF assms(2), of 0]
  have "\<forall>j<8184. fillHoles buf ! j = 0" by (simp add: fillHoles_def)
  with assms(1) show ?thesis
    by (simp add: list_eq_iff_nth_eq length_fillHoles)
qed

lemma zeros_compressBuffer:
  "compressBuffer useGreedyParsing (replicate 8184 0)
     = Some (Inr ([0x66, 0x1f, 0, 236, 0, 0] @ concat (replicate 31 [0x0f, 236, 0, 0])
                  @ [0x0f, 4, 0, 0, 0x0f, 254]))"
  by (cases useGreedyParsing) (simp_all only: compressBuffer_def zeros_greedy zeros_optimal if_True if_False)

lemma compressFile_result:
  assumes "MIN_SIZE \<le> length fileData" and "length fileData \<le> MAX_SIZE"
    and c1: "compressBuffer useGreedyParsing
               (take MIN_SIZE (zeroHoles (array stack MAX_SIZE fileData))) = Some (Inr out1)"
    and c2: "compressBuffer useGreedyParsing
               (take MIN_SIZE (fillHoles (array stack MAX_SIZE
                  (take MIN_SIZE (array stack MAX_SIZE fileData))))) = Some (Inr out2)"
  shows "compressFile stack fileData False useGreedyParsing
           = Some (Inr (if length out1 \<le> length out2
                        then (out1, zeroHoles (array stack MAX_SIZE fileData))
                        else (out2, fillHoles (array stack MAX_SIZE
                                (take MIN_SIZE (array stack MAX_SIZE fileData))))))"
proof -
  let ?inBuf1 = "array stack MAX_SIZE fileData"
  let ?inBuf2 = "array stack MAX_SIZE (take MIN_SIZE ?inBuf1)"
  have l1: "length ?inBuf1 = MAX_SIZE" using assms by (simp add: length_array)
  have l2: "length ?inBuf2 = MAX_SIZE" using l1 by (simp add: length_array)
  have lz: "length (zeroHoles ?inBuf1) = MAX_SIZE" using l1 by (simp add: length_zeroHoles)
  have lf: "length (fillHoles ?inBuf2) = MAX_SIZE" using l2 by (simp add: length_fillHoles)
  have v1: "verify stack MIN_SIZE (zeroHoles ?inBuf1) out1 = Inr (out1, zeroHoles ?inBuf1)"
    using c1 lz by (intro verify_ok [of useGreedyParsing]) simp_all
  have v2: "verify stack MIN_SIZE (fillHoles ?inBuf2) out2 = Inr (out2, fillHoles ?inBuf2)"
    using c2 lf by (intro verify_ok [of useGreedyParsing]) simp_all
  show ?thesis
    using assms(1,2) c1 c2 v1 v2 by (simp add: compressFile_def Let_def)
qed

lemma zero_image:
  "compressFile stack (replicate 8192 0) False useGreedyParsing
     = Some (Inr ([0x66, 0x1f, 0, 236, 0, 0] @ concat (replicate 31 [0x0f, 236, 0, 0])
                  @ [0x0f, 4, 0, 0, 0x0f, 254], replicate 8192 0))"
proof -
  let ?out = "[0x66, 0x1f, 0, 236, 0, 0] @ concat (replicate 31 [0x0f, 236, 0, 0])
                @ [0x0f, 4, 0, 0, 0x0f, 254 :: byte]"
  let ?file = "replicate 8192 (0 :: byte)"
  let ?inBuf1 = "array stack MAX_SIZE ?file"
  let ?inBuf2 = "array stack MAX_SIZE (take MIN_SIZE ?inBuf1)"
  have a1: "?inBuf1 = ?file" by (simp add: array_def)
  have z: "zeroHoles ?inBuf1 = ?file" unfolding a1 by (simp add: zeroHoles_def zeroHolesLoop_zeros)
  have t1: "take MIN_SIZE (zeroHoles ?inBuf1) = replicate 8184 0" unfolding z by simp
  have l2: "length ?inBuf2 = MAX_SIZE" unfolding a1 by (simp add: array_def)
  have "\<forall>j<8184. ?inBuf2 ! j = 0" unfolding a1 by (simp add: array_def nth_append)
  from fillHoles_zeros [OF l2 this]
  have t2: "take MIN_SIZE (fillHoles ?inBuf2) = replicate 8184 0" .
  have c1: "compressBuffer useGreedyParsing (take MIN_SIZE (zeroHoles ?inBuf1)) = Some (Inr ?out)"
    unfolding t1 by (rule zeros_compressBuffer)
  have c2: "compressBuffer useGreedyParsing (take MIN_SIZE (fillHoles ?inBuf2)) = Some (Inr ?out)"
    unfolding t2 by (rule zeros_compressBuffer)
  have "compressFile stack ?file False useGreedyParsing
          = Some (Inr (if length ?out \<le> length ?out then (?out, zeroHoles ?inBuf1)
                       else (?out, fillHoles ?inBuf2)))"
    by (rule compressFile_result [OF _ _ c1 c2]) simp_all
  then show ?thesis unfolding z by simp
qed

subsection \<open>Optimal against greedy\<close>

text \<open>
  Pass 1 adds the byte of the match-length extension to the cost of a match of 15 bytes
  or more: line 370 tests \<^verbatim>\<open>longestMatch >= INITIAL_LEN\<close>. Both emitters write that byte
  for a match of 19 bytes or more: lines 499 and 626 test
  \<^verbatim>\<open>adjustedMatch >= INITIAL_LEN\<close>, with \<^verbatim>\<open>adjustedMatch = longestMatch - MIN_MATCH_LEN\<close>.
  So a node that pass 1 makes a match of 15 to 18 bytes is costed at 4 bytes, and the
  chunk emitted for such a match, with no literals in front of it, has 3 bytes.
\<close>

lemma optStep_match_cost:
  assumes "optStep b i tbl = Inr tbl'" and "i < length tbl"
    and "matchLength (tbl' ! i) \<noteq> 0" and "15 \<le> fst (findLongestMatch b i)"
  shows "totalCost (tbl' ! i) = totalCost (tbl ! (i + fst (findLongestMatch b i))) + 4"
  using assms
  by (auto simp: optStep_unfold matchCost_def split: if_splits)

lemma emitMatch_short_length:
  assumes "L \<le> 18"
  shows "length (emitMatch b ls 0 L off) = 3"
  using assms by (simp add: emitMatch_eq)

text \<open>
  C4. The code does not do what the claim says. The input is the bytes 1 to 8 followed
  by 8176 zeros (8184 bytes). The greedy encoder emits 143 bytes: a chunk of 9 literals
  with a match of 255 bytes, 31 more matches of 255 and a match of 15, all at offset 8,
  and the end-of-data chunk. The optimal encoder emits 144 bytes: 10 literals, then 32
  matches of 255 and a match of 14. At index 9, which is 15 bytes before the end of a
  chain of matches of 255, pass 1 costs the last match of 15 bytes at 4 bytes instead of
  the 3 it takes, the two costs are equal and it takes the literal; the literal at
  index 8 then adds one byte, where the greedy encoder starts the matches.
\<close>

theorem optimal_longer_than_greedy:
  "length ([1, 2, 3, 4, 5, 6, 7, 8] @ replicate 8176 (0 :: byte)) = 8184
   \<and> compressBufferGreedily ([1, 2, 3, 4, 5, 6, 7, 8] @ replicate 8176 0)
       = Inr ([0x66, 0x9f, 1, 2, 3, 4, 5, 6, 7, 8, 0, 236, 8, 0]
              @ concat (replicate 31 [0x0f, 236, 8, 0]) @ [0x0b, 8, 0, 0x0f, 254])
   \<and> length ([0x66, 0x9f, 1, 2, 3, 4, 5, 6, 7, 8, 0, 236, 8, 0 :: byte]
              @ concat (replicate 31 [0x0f, 236, 8, 0]) @ [0x0b, 8, 0, 0x0f, 254]) = 143
   \<and> compressBufferOptimally ([1, 2, 3, 4, 5, 6, 7, 8] @ replicate 8176 0)
       = Some (Inr ([0x66, 0xaf, 1, 2, 3, 4, 5, 6, 7, 8, 0, 0, 236, 8, 0]
                    @ concat (replicate 31 [0x0f, 236, 8, 0]) @ [0x0a, 8, 0, 0x0f, 254]))
   \<and> length ([0x66, 0xaf, 1, 2, 3, 4, 5, 6, 7, 8, 0, 0, 236, 8, 0 :: byte]
              @ concat (replicate 31 [0x0f, 236, 8, 0]) @ [0x0a, 8, 0, 0x0f, 254]) = 144"
  by (intro conjI ramp_greedy ramp_optimal) (simp_all add: length_concat sum_list_replicate)

subsection \<open>The all-zero image, compressed\<close>

text \<open>The content of the arrays of \<^verbatim>\<open>compressFile\<close> before they are written, in a run.\<close>

definition blankStack :: "nat \<Rightarrow> byte" where
  "blankStack i = 0xcc"

text \<open>
  C5 as stated does not hold: with hole rewriting, the all-zero image of 8192 bytes is
  compressed to 136 bytes in either parsing mode, not to 20 or fewer. A match is at
  most 255 bytes long, so the 8183 zeros after the first take 33 matches.
\<close>

theorem zero_image_exceeds_20_bytes:
  "compressFile blankStack (replicate 8192 0) False True
     = Some (Inr ([0x66, 0x1f, 0, 236, 0, 0] @ concat (replicate 31 [0x0f, 236, 0, 0])
                  @ [0x0f, 4, 0, 0, 0x0f, 254], replicate 8192 0))
   \<and> compressFile blankStack (replicate 8192 0) False False
     = Some (Inr ([0x66, 0x1f, 0, 236, 0, 0] @ concat (replicate 31 [0x0f, 236, 0, 0])
                  @ [0x0f, 4, 0, 0, 0x0f, 254], replicate 8192 0))
   \<and> length ([0x66, 0x1f, 0, 236, 0, 0 :: byte] @ concat (replicate 31 [0x0f, 236, 0, 0])
              @ [0x0f, 4, 0, 0, 0x0f, 254]) = 136"
  by (intro conjI zero_image) (simp add: length_concat sum_list_replicate)

text \<open>
  C5, amended. With hole rewriting and in either parsing mode, \<^verbatim>\<open>compressFile\<close> on the
  all-zero image of 8192 bytes ends with 136 bytes of output for the zero-filled
  array: the magic byte \<open>66\<close>; a chunk with one literal (a zero) and a match of 255 bytes
  at offset 0, which overlaps the bytes it produces; 31 more matches of 255 bytes and a
  match of 23 bytes, all at offset 0; and the end-of-data chunk. \<open>uncompressBuffer\<close>,
  given these bytes (whatever follows them in the array), returns 8184 and leaves 8184
  zeros, the input of the encoder, in the output array.
\<close>

theorem zero_image_compressed:
  "compressFile stack (replicate 8192 0) False useGreedyParsing
     = Some (Inr ([0x66, 0x1f, 0, 236, 0, 0] @ concat (replicate 31 [0x0f, 236, 0, 0])
                  @ [0x0f, 4, 0, 0, 0x0f, 254], replicate 8192 0))
   \<and> [0x66, 0x1f, 0, 236, 0, 0] @ concat (replicate 31 [0x0f, 236, 0, 0])
        @ [0x0f, 4, 0, 0, 0x0f, 254]
     = [LZ4FH_MAGIC] @ emitMatch (replicate 8184 0) 0 1 255 0
        @ concat (replicate 31 (emitMatch (replicate 8184 0) 0 0 255 0))
        @ emitMatch (replicate 8184 0) 0 0 23 0
        @ emitLiterals (replicate 8184 0) 0 0 EOD_MATCH_TOKEN
   \<and> length ([0x66, 0x1f, 0, 236, 0, 0 :: byte] @ concat (replicate 31 [0x0f, 236, 0, 0])
              @ [0x0f, 4, 0, 0, 0x0f, 254]) = 136
   \<and> (\<exists>v. uncompressBuffer (replicate 8192 0xcc)
              (([0x66, 0x1f, 0, 236, 0, 0] @ concat (replicate 31 [0x0f, 236, 0, 0])
                @ [0x0f, 4, 0, 0, 0x0f, 254]) @ junk) 136
            = Inr (8184, v, 136)
          \<and> take 8184 v = replicate 8184 0)"
proof -
  let ?out = "[0x66, 0x1f, 0, 236, 0, 0] @ concat (replicate 31 [0x0f, 236, 0, 0])
                @ [0x0f, 4, 0, 0, 0x0f, 254 :: byte]"
  let ?b = "replicate 8184 (0 :: byte)"
  have l: "length ?out = 136" by (simp add: length_concat sum_list_replicate)
  have e: "?out = [LZ4FH_MAGIC] @ emitMatch ?b 0 1 255 0
        @ concat (replicate 31 (emitMatch ?b 0 0 255 0))
        @ emitMatch ?b 0 0 23 0 @ emitLiterals ?b 0 0 EOD_MATCH_TOKEN"
    unfolding emit_zeros by simp
  have "length ?b \<le> MAX_SIZE" by simp
  from compressBufferGreedily_sound [OF this] zeros_greedy
  have "\<forall>junk ob. length ob = MAX_SIZE \<longrightarrow>
          (\<exists>ob'. uncompressBuffer ob (?out @ junk) (length ?out)
                   = Inr (length ?b, ob', length ?out) \<and> take (length ?b) ob' = ?b)"
    by (simp only: sum.inject) blast
  moreover have "length (replicate 8192 (0xcc :: byte)) = MAX_SIZE" by simp
  ultimately have "\<exists>v. uncompressBuffer (replicate 8192 0xcc) (?out @ junk) (length ?out)
                   = Inr (length ?b, v, length ?out) \<and> take (length ?b) v = ?b"
    by blast
  then have d: "\<exists>v. uncompressBuffer (replicate 8192 0xcc) (?out @ junk) 136
                   = Inr (8184, v, 136) \<and> take 8184 v = ?b"
    unfolding l by (simp only: length_replicate)
  from zero_image [of stack useGreedyParsing] e l d show ?thesis by (intro conjI)
qed

theorem zero_image_compressed_witness:
  "compressFile blankStack (replicate 8192 0) False False
     = Some (Inr ([0x66, 0x1f, 0, 236, 0, 0] @ concat (replicate 31 [0x0f, 236, 0, 0])
                  @ [0x0f, 4, 0, 0, 0x0f, 254], replicate 8192 0))
   \<and> (\<exists>v. uncompressBuffer (replicate 8192 0xcc)
              (([0x66, 0x1f, 0, 236, 0, 0] @ concat (replicate 31 [0x0f, 236, 0, 0])
                @ [0x0f, 4, 0, 0, 0x0f, 254]) @ []) 136
            = Inr (8184, v, 136)
          \<and> take 8184 v = replicate 8184 0)"
  using zero_image_compressed [of blankStack False "[]"] by blast

subsection \<open>A full run of literals in front of a match\<close>

text \<open>
  \<open>fullRunInput\<close> is the bytes 1 to 255, then 1, 2, 3, 4, then 7925 zeros (8184 bytes).
  The first 255 bytes have no match; at index 255 the four bytes 1, 2, 3, 4 match the
  start of the buffer.
\<close>

definition fullRunInput :: "byte list" where
  "fullRunInput = map of_nat [1..<256] @ [1, 2, 3, 4] @ replicate 7925 0"

lemma byte_of_nat_eq:
  assumes "i < 256" and "j < 256" and "(of_nat i :: byte) = of_nat j"
  shows "i = j"
proof -
  from assms(3) have "unat (of_nat i :: byte) = unat (of_nat j :: byte)" by (rule arg_cong)
  then show ?thesis by (simp only: unat_byte [OF assms(1)] unat_byte [OF assms(2)])
qed

lemma run_length: "length fullRunInput = 8184"
  by (simp add: fullRunInput_def)

lemma run_nth: "i < 255 \<Longrightarrow> fullRunInput ! i = of_nat (Suc i)"
  by (simp add: fullRunInput_def nth_append)

lemma run_nth_tail:
  "fullRunInput ! 255 = 1" "fullRunInput ! 256 = 2" "fullRunInput ! 257 = 3"
  "fullRunInput ! 258 = 4" "fullRunInput ! 259 = 0"
  by (simp_all add: fullRunInput_def nth_append)

lemma run_nth_head:
  "fullRunInput ! 0 = 1" "fullRunInput ! 1 = 2" "fullRunInput ! 2 = 3"
  "fullRunInput ! 3 = 4" "fullRunInput ! 4 = 5"
  by (simp_all add: fullRunInput_def nth_append)

lemma run_nonzero: "\<forall>x\<in>set (map of_nat [1..<256] @ [1, 2, 3, 4 :: byte]). x \<noteq> 0"
proof -
  have "(of_nat n :: byte) \<noteq> 0" if "1 \<le> n" "n < 256" for n
  proof
    assume "(of_nat n :: byte) = 0"
    then have "(of_nat n :: byte) = of_nat 0" by simp
    from byte_of_nat_eq [OF that(2) _ this] that(1) show False by simp
  qed
  then show ?thesis by auto
qed

lemma run_split: "fullRunInput = (map of_nat [1..<256] @ [1, 2, 3, 4]) @ replicate 7925 0"
  by (simp add: fullRunInput_def)

lemma run_first:
  assumes "p \<le> 254"
  shows "findLongestMatch fullRunInput p = (0, 0)"
proof (rule findLongestMatch_none, intro allI impI)
  fix i assume "i < p"
  with assms have l: "i < 255" "p < 255" and s: "Suc i < 256" "Suc p < 256"
    and ne: "Suc i \<noteq> Suc p" by simp_all
  from byte_of_nat_eq [OF s] ne have d: "(of_nat (Suc i) :: byte) \<noteq> of_nat (Suc p)" by blast
  show "fullRunInput ! i \<noteq> fullRunInput ! p"
    unfolding run_nth [OF l(1)] run_nth [OF l(2)] by (rule d)
qed

lemma run_match: "findLongestMatch fullRunInput 255 = (4, 0)"
proof -
  let ?b = "fullRunInput"
  let ?g = "\<lambda>i. getMatchLen ?b 255 i (maxLenAt ?b 255)"
  have m: "maxLenAt ?b 255 = 255" by (simp add: maxLenAt_def run_length)
  have "matchAt ?b 255 0 4"
    unfolding matchAt_def
  proof (intro allI impI)
    fix k :: nat assume "k < 4"
    then consider "k = 0" | "k = 1" | "k = 2" | "k = 3" by linarith
    then show "?b ! (0 + k) = ?b ! (255 + k)"
      by cases (simp_all add: fullRunInput_def nth_append)
  qed
  from matchAt_le_getMatchLen [OF _ this, of 255] have ge: "4 \<le> ?g 0" by (simp add: m)
  have le: "?g 0 \<le> 4"
  proof (rule ccontr)
    assume "\<not> ?g 0 \<le> 4"
    then have "4 < ?g 0" by simp
    from getMatchLen_match [OF this] have "?b ! (255 + 4) = ?b ! (0 + 4)" .
    then show False by (simp add: run_nth_head run_nth_tail)
  qed
  from ge le have g0: "?g 0 = 4" by simp
  have gi: "?g i = 0" if "0 < i" "i < 255" for i
  proof (rule ccontr)
    assume "?g i \<noteq> 0"
    then have "0 < ?g i" by simp
    from getMatchLen_match [OF this] have "?b ! 255 = ?b ! i" by simp
    with that have "(of_nat 1 :: byte) = of_nat (Suc i)" by (simp add: run_nth run_nth_tail)
    from byte_of_nat_eq [OF _ _ this] that show False by simp
  qed
  obtain len off where f: "findLongestMatch ?b 255 = (len, off)"
    by (cases "findLongestMatch ?b 255")
  note spec = findLongestMatch_spec [OF f]
  from spec(2) g0 m have "4 \<le> len" by fastforce
  then have pos: "0 < len" by simp
  from spec(3) [OF pos] have o: "off < 255" and go: "?g off = len" by simp_all
  have "off = 0"
  proof (rule ccontr)
    assume "off \<noteq> 0"
    with o gi [of off] go pos show False by simp
  qed
  with go g0 f show ?thesis by simp
qed

lemma run_zero: "findLongestMatch fullRunInput 259 = (0, 0)"
proof (rule findLongestMatch_none, intro allI impI)
  let ?pre = "map of_nat [1..<256] @ [1, 2, 3, 4 :: byte]"
  fix i :: nat assume i: "i < 259"
  have lp: "length ?pre = 259" by simp
  from i have "fullRunInput ! i = ?pre ! i"
    unfolding run_split by (simp only: nth_append lp if_True)
  moreover from i have "?pre ! i \<in> set ?pre" by (intro nth_mem) simp
  ultimately have "fullRunInput ! i \<noteq> 0" using run_nonzero by metis
  then show "fullRunInput ! i \<noteq> fullRunInput ! 259" by (simp add: run_nth_tail)
qed

lemma run_zeros:
  assumes "259 < p" and "p + 4 \<le> 8184"
  shows "findLongestMatch fullRunInput p = (min 255 (8184 - p), 259)"
  unfolding run_split
  using findLongestMatch_zeros [OF run_nonzero, of p 7925] assms by simp

lemma run_literals:
  "take 255 (drop 0 fullRunInput) = map of_nat [1..<256]"
  "take 255 fullRunInput = map of_nat [1..<256]"
  "take 1 (drop 259 fullRunInput) = [0]"
  "take (Suc 0) (drop 259 fullRunInput) = [0]"
  by (simp_all add: fullRunInput_def)

lemma emit_run:
  "emitMatch fullRunInput 0 255 4 0 = [0xf0, 240] @ map of_nat [1..<256] @ [0, 0]"
  "emitMatch fullRunInput 259 1 255 259 = [0x1f, 0, 236, 3, 1]"
  "emitMatch fullRunInput 0 0 255 259 = [0x0f, 236, 3, 1]"
  "emitMatch fullRunInput 0 0 19 259 = [0x0f, 0, 3, 1]"
  "emitLiterals fullRunInput 0 0 EOD_MATCH_TOKEN = [0x0f, 254]"
  by (simp_all add: emitMatch_def emitLiterals_def mixedLengthsOf_def run_literals)

lemma run_greedy:
  "compressBufferGreedily fullRunInput
     = Inr ([0x66, 0xf0, 240] @ map of_nat [1..<256] @ [0, 0]
            @ [0x1f, 0, 236, 3, 1] @ concat (replicate 30 [0x0f, 236, 3, 1])
            @ [0x0f, 0, 3, 1, 0x0f, 254])"
proof -
  let ?b = "fullRunInput"
  note len = run_length
  have "greedyLoop ?b 0 0 0 [0x66]
          = greedyLoop ?b (0 + 255) (if (0::nat) = 0 \<and> (0::nat) < 255 then 0 else 0)
              (0 + 255) [0x66]"
    by (rule greedyLoop_literals [where k = 254, OF run_first]) (simp_all add: len)
  then have s0: "greedyLoop ?b 0 0 0 [0x66] = greedyLoop ?b 255 0 255 [0x66]" by simp
  have s1: "greedyLoop ?b 255 0 255 [0x66]
              = greedyLoop ?b 259 0 0 ([0x66] @ emitMatch ?b 0 255 4 0)"
    by (subst greedyLoop_unfold) (simp add: run_match len)
  have l1: "length ([0x66] @ emitMatch ?b 0 255 4 0) = 260"
    by (simp add: length_emitMatch len)
  have s2: "greedyLoop ?b 259 0 0 ([0x66] @ emitMatch ?b 0 255 4 0)
              = greedyLoop ?b 260 259 1 ([0x66] @ emitMatch ?b 0 255 4 0)"
    by (subst greedyLoop_unfold) (simp only: l1 len run_zero, simp)
  have f260: "findLongestMatch ?b 260 = (255, 259)" using run_zeros [of 260] by simp
  have s3: "greedyLoop ?b 260 259 1 ([0x66] @ emitMatch ?b 0 255 4 0)
              = greedyLoop ?b 515 0 0
                  (([0x66] @ emitMatch ?b 0 255 4 0) @ emitMatch ?b 259 1 255 259)"
    by (subst greedyLoop_unfold) (simp only: l1 len f260, simp)
  have l3: "length (([0x66] @ emitMatch ?b 0 255 4 0) @ emitMatch ?b 259 1 255 259) = 265"
    by (simp add: length_emitMatch len)
  have s4: "greedyLoop ?b 515 0 0
                  (([0x66] @ emitMatch ?b 0 255 4 0) @ emitMatch ?b 259 1 255 259)
              = Inr (0, 0, (([0x66] @ emitMatch ?b 0 255 4 0) @ emitMatch ?b 259 1 255 259)
                           @ concat (replicate 30 (emitMatch ?b 0 0 255 259))
                           @ emitMatch ?b 0 0 19 259)"
    by (rule greedyLoop_zero_chain [OF len run_zeros]) (simp_all add: length_emitMatch len)
  have "compressBufferGreedily ?b
          = Inr (((([0x66] @ emitMatch ?b 0 255 4 0) @ emitMatch ?b 259 1 255 259)
                  @ concat (replicate 30 (emitMatch ?b 0 0 255 259)) @ emitMatch ?b 0 0 19 259)
                 @ emitLiterals ?b 0 0 EOD_MATCH_TOKEN)"
    unfolding compressBufferGreedily_def s0 s1 s2 s3 s4 by (simp only: sum.case prod.case)
  then show ?thesis unfolding emit_run by simp
qed

text \<open>
  C8 as stated does not hold for a run of 255 literals that a match follows. On
  \<open>fullRunInput\<close> (8184 bytes) the pending run reaches 255 literals at index 255, where
  there is a match of 4 bytes at offset 0: the greedy encoder does not flush the run
  with the empty-match token 253, it emits the run in the chunk of the match. Its
  output starts with \<open>66\<close>, the mixed byte \<open>f0\<close>, the extension byte 240, the 255 literals
  and the offset bytes 0, 0; then come a chunk of one literal with a match of 255 bytes
  at offset 259, 30 more matches of 255, a match of 19, and the end-of-data chunk.
\<close>

theorem full_run_emitted_with_match:
  "length (map of_nat [1..<256] @ [1, 2, 3, 4] @ replicate 7925 (0 :: byte)) = 8184
   \<and> compressBufferGreedily (map of_nat [1..<256] @ [1, 2, 3, 4] @ replicate 7925 0)
       = Inr ([0x66, 0xf0, 240] @ map of_nat [1..<256] @ [0, 0]
              @ [0x1f, 0, 236, 3, 1] @ concat (replicate 30 [0x0f, 236, 3, 1])
              @ [0x0f, 0, 3, 1, 0x0f, 254])"
  using run_length run_greedy unfolding fullRunInput_def by (rule conjI)

end
